theory Spec2Isabelle
  imports Complex_Main
begin

section \<open>Python values\<close>

text \<open>
  The flattener of \<^verbatim>\<open>main.py\<close> receives what docTR's \<^verbatim>\<open>result.export()\<close> returns: nested
  dictionaries and lists with strings and numbers at the leaves. Python checks no types
  before the call, so the model works on dynamically typed values and every operation
  that Python would refuse is an error value of the model.

  A string is a list of characters, each standing for a code point below 256. A dictionary
  is an association list read with \<open>map_of\<close>.
\<close>

datatype pyval =
    PNone
  | PBool bool
  | PInt int
  | PFloat real
  | PStr string
  | PList "pyval list"
  | PDict "(string \<times> pyval) list"

datatype py_error = AttributeError | TypeError

text \<open>\<^verbatim>\<open>obj.get(key, default)\<close>: only a dictionary has the method.\<close>

definition py_get :: "pyval \<Rightarrow> string \<Rightarrow> pyval \<Rightarrow> py_error + pyval" where
  "py_get obj k dflt =
     (case obj of
        PDict kvs \<Rightarrow> Inr (case map_of kvs k of None \<Rightarrow> dflt | Some v \<Rightarrow> v)
      | _ \<Rightarrow> Inl AttributeError)"

text \<open>
  The items a \<^verbatim>\<open>for\<close> loop draws from a value: the elements of a list, the keys of a
  dictionary, the characters of a string; anything else is not iterable.
\<close>

definition py_iter :: "pyval \<Rightarrow> py_error + pyval list" where
  "py_iter v =
     (case v of
        PList xs \<Rightarrow> Inr xs
      | PDict kvs \<Rightarrow> Inr (map (\<lambda>kv. PStr (fst kv)) kvs)
      | PStr s \<Rightarrow> Inr (map (\<lambda>c. PStr [c]) s)
      | _ \<Rightarrow> Inl TypeError)"

text \<open>The truth value Python gives a value in \<^verbatim>\<open>if value:\<close>.\<close>

fun truthy :: "pyval \<Rightarrow> bool" where
  "truthy PNone = False"
| "truthy (PBool b) = b"
| "truthy (PInt i) = (i \<noteq> 0)"
| "truthy (PFloat r) = (r \<noteq> 0)"
| "truthy (PStr s) = (s \<noteq> [])"
| "truthy (PList xs) = (xs \<noteq> [])"
| "truthy (PDict kvs) = (kvs \<noteq> [])"

fun str_join :: "string \<Rightarrow> string list \<Rightarrow> string" where
  "str_join sep [] = []"
| "str_join sep [x] = x"
| "str_join sep (x # y # ys) = x @ sep @ str_join sep (y # ys)"

text \<open>\<^verbatim>\<open>sep.join(items)\<close> raises \<^verbatim>\<open>TypeError\<close> unless every item is a string.\<close>

fun as_strs :: "pyval list \<Rightarrow> string list option" where
  "as_strs [] = Some []"
| "as_strs (PStr s # vs) = (case as_strs vs of None \<Rightarrow> None | Some ss \<Rightarrow> Some (s # ss))"
| "as_strs (_ # vs) = None"

definition py_join :: "string \<Rightarrow> pyval list \<Rightarrow> py_error + string" where
  "py_join sep items =
     (case as_strs items of None \<Rightarrow> Inl TypeError | Some ss \<Rightarrow> Inr (str_join sep ss))"

text \<open>
  \<^verbatim>\<open>str.strip()\<close> removes the white space at both ends. Below 256 Python counts as white
  space the code points 9 to 13, 28 to 32, 133 and 160.
\<close>

definition is_space :: "char \<Rightarrow> bool" where
  "is_space c =
     (let n = (of_char c :: nat)
      in (9 \<le> n \<and> n \<le> 13) \<or> (28 \<le> n \<and> n \<le> 32) \<or> n = 133 \<or> n = 160)"

definition strip :: "string \<Rightarrow> string" where
  "strip s = rev (dropWhile is_space (rev (dropWhile is_space s)))"

section \<open>The export flattener\<close>

text \<open>
  \<^verbatim>\<open>extract_text_from_doctr_export\<close> (main.py, lines 14 to 64). Each \<^verbatim>\<open>for\<close> loop is a
  recursive function over the items still to visit; the list the loop appends to is its
  first argument.
\<close>

text \<open>Lines 48 to 53: the words of one line.\<close>

fun words_loop :: "pyval list \<Rightarrow> pyval list \<Rightarrow> py_error + pyval list" where
  "words_loop words [] = Inr words"
| "words_loop words (w # ws) =
     (case py_get w ''value'' (PStr '''') of
        Inl e \<Rightarrow> Inl e
      | Inr v \<Rightarrow> words_loop (if truthy v then words @ [v] else words) ws)"

text \<open>Lines 45 to 57: the lines of one block.\<close>

fun lines_loop :: "string list \<Rightarrow> pyval list \<Rightarrow> py_error + string list" where
  "lines_loop output_lines [] = Inr output_lines"
| "lines_loop output_lines (line # ls) =
     (case py_get line ''words'' (PList []) of
        Inl e \<Rightarrow> Inl e
      | Inr wv \<Rightarrow>
          (case py_iter wv of
             Inl e \<Rightarrow> Inl e
           | Inr ws \<Rightarrow>
               (case words_loop [] ws of
                  Inl e \<Rightarrow> Inl e
                | Inr words \<Rightarrow>
                    if words \<noteq> [] then
                      (case py_join '' '' words of
                         Inl e \<Rightarrow> Inl e
                       | Inr s \<Rightarrow> lines_loop (output_lines @ [s]) ls)
                    else lines_loop output_lines ls)))"

text \<open>Lines 42 to 57: the blocks of one page.\<close>

fun blocks_loop :: "string list \<Rightarrow> pyval list \<Rightarrow> py_error + string list" where
  "blocks_loop output_lines [] = Inr output_lines"
| "blocks_loop output_lines (block # bs) =
     (case py_get block ''lines'' (PList []) of
        Inl e \<Rightarrow> Inl e
      | Inr lv \<Rightarrow>
          (case py_iter lv of
             Inl e \<Rightarrow> Inl e
           | Inr ls \<Rightarrow>
               (case lines_loop output_lines ls of
                  Inl e \<Rightarrow> Inl e
                | Inr out \<Rightarrow> blocks_loop out bs)))"

text \<open>
  Lines 39 to 61: the pages. \<open>n\<close> is \<^verbatim>\<open>len(pages)\<close> and \<open>page_index\<close> the counter of
  \<^verbatim>\<open>enumerate\<close>; the comparison of line 60 is on Python's integers.
\<close>

fun pages_loop :: "nat \<Rightarrow> string list \<Rightarrow> nat \<Rightarrow> pyval list \<Rightarrow> py_error + string list" where
  "pages_loop n output_lines page_index [] = Inr output_lines"
| "pages_loop n output_lines page_index (page # ps) =
     (case py_get page ''blocks'' (PList []) of
        Inl e \<Rightarrow> Inl e
      | Inr bv \<Rightarrow>
          (case py_iter bv of
             Inl e \<Rightarrow> Inl e
           | Inr bs \<Rightarrow>
               (case blocks_loop output_lines bs of
                  Inl e \<Rightarrow> Inl e
                | Inr out \<Rightarrow>
                    pages_loop n
                      (if int page_index \<noteq> int n - 1 then out @ [''''] else out)
                      (Suc page_index) ps)))"

text \<open>Lines 33 to 61: the list \<^verbatim>\<open>output_lines\<close> as it stands before line 64.\<close>

definition output_lines_of :: "pyval \<Rightarrow> py_error + string list" where
  "output_lines_of exported =
     (case py_get exported ''pages'' (PList []) of
        Inl e \<Rightarrow> Inl e
      | Inr pages \<Rightarrow>
          (case py_iter pages of
             Inl e \<Rightarrow> Inl e
           | Inr ps \<Rightarrow> pages_loop (length ps) [] 0 ps))"

definition extract_text_from_doctr_export :: "pyval \<Rightarrow> py_error + string" where
  "extract_text_from_doctr_export exported =
     (case output_lines_of exported of
        Inl e \<Rightarrow> Inl e
      | Inr output_lines \<Rightarrow> Inr (strip (str_join [CHR 0x0A] output_lines)))"

section \<open>The export as the specification describes it\<close>

text \<open>
  Section 3 of the specification: an export is a dictionary whose \<^verbatim>\<open>"pages"\<close> is a list of
  pages, a page a dictionary whose \<^verbatim>\<open>"blocks"\<close> is a list of blocks, a block a dictionary
  whose \<^verbatim>\<open>"lines"\<close> is a list of lines, a line a dictionary whose \<^verbatim>\<open>"words"\<close> is a list
  of words, a word a dictionary whose \<^verbatim>\<open>"value"\<close> is a string. Each of the five keys may
  be absent; what other keys hold is not constrained.
\<close>

definition field :: "pyval \<Rightarrow> string \<Rightarrow> pyval option" where
  "field obj k = (case obj of PDict kvs \<Rightarrow> map_of kvs k | _ \<Rightarrow> None)"

definition is_dict :: "pyval \<Rightarrow> bool" where
  "is_dict v = (case v of PDict _ \<Rightarrow> True | _ \<Rightarrow> False)"

fun absent_or_list :: "(pyval \<Rightarrow> bool) \<Rightarrow> pyval option \<Rightarrow> bool" where
  "absent_or_list P None = True"
| "absent_or_list P (Some (PList xs)) = list_all P xs"
| "absent_or_list P (Some _) = False"

fun absent_or_str :: "pyval option \<Rightarrow> bool" where
  "absent_or_str None = True"
| "absent_or_str (Some (PStr s)) = True"
| "absent_or_str (Some _) = False"

definition wf_word :: "pyval \<Rightarrow> bool" where
  "wf_word w = (is_dict w \<and> absent_or_str (field w ''value''))"

definition wf_line :: "pyval \<Rightarrow> bool" where
  "wf_line l = (is_dict l \<and> absent_or_list wf_word (field l ''words''))"

definition wf_block :: "pyval \<Rightarrow> bool" where
  "wf_block b = (is_dict b \<and> absent_or_list wf_line (field b ''lines''))"

definition wf_page :: "pyval \<Rightarrow> bool" where
  "wf_page p = (is_dict p \<and> absent_or_list wf_block (field p ''blocks''))"

definition wf_export :: "pyval \<Rightarrow> bool" where
  "wf_export e = (is_dict e \<and> absent_or_list wf_page (field e ''pages''))"

text \<open>
  The reference definition, in the words of section 4.2 of the specification: an absent
  key is an empty sequence, an absent value the empty string.
\<close>

definition items_of :: "pyval \<Rightarrow> string \<Rightarrow> pyval list" where
  "items_of obj k = (case field obj k of Some (PList xs) \<Rightarrow> xs | _ \<Rightarrow> [])"

definition word_value :: "pyval \<Rightarrow> string" where
  "word_value w = (case field w ''value'' of Some (PStr s) \<Rightarrow> s | _ \<Rightarrow> [])"

text \<open>The values collected for a line: those of its words, the empty ones skipped.\<close>

definition line_values :: "pyval \<Rightarrow> string list" where
  "line_values l = filter (\<lambda>s. s \<noteq> []) (map word_value (items_of l ''words''))"

text \<open>A line gives one entry, its values joined with a space, when it collected a value.\<close>

definition line_entries :: "pyval \<Rightarrow> string list" where
  "line_entries l = (if line_values l = [] then [] else [str_join '' '' (line_values l)])"

definition block_entries :: "pyval \<Rightarrow> string list" where
  "block_entries b = concat (map line_entries (items_of b ''lines''))"

definition page_entries :: "pyval \<Rightarrow> string list" where
  "page_entries p = concat (map block_entries (items_of p ''blocks''))"

text \<open>
  The reference definition without the blank line between pages: the entries of all pages,
  joined with a newline and stripped.
\<close>

definition flatten_unseparated :: "pyval \<Rightarrow> string" where
  "flatten_unseparated e =
     strip (str_join [CHR 0x0A] (concat (map page_entries (items_of e ''pages''))))"

text \<open>
  The entries of the pages with one empty string after every page but the last
  (section 4.2, second step).
\<close>

fun separated :: "string list list \<Rightarrow> string list" where
  "separated [] = []"
| "separated [p] = p"
| "separated (p # q # ps) = p @ [''''] @ separated (q # ps)"

definition spec_output_lines :: "pyval \<Rightarrow> string list" where
  "spec_output_lines e = separated (map page_entries (items_of e ''pages''))"

definition spec_flatten :: "pyval \<Rightarrow> string" where
  "spec_flatten e = strip (str_join [CHR 0x0A] (spec_output_lines e))"

text \<open>Exports used as concrete inputs.\<close>

definition word_of :: "string \<Rightarrow> pyval" where
  "word_of s = PDict [(''value'', PStr s), (''confidence'', PFloat 0.5)]"

definition one_line_page :: "string list \<Rightarrow> pyval" where
  "one_line_page ws =
     PDict [(''blocks'', PList [PDict [(''lines'', PList [PDict [(''words'', PList (map word_of ws))]])]])]"

definition two_pages :: pyval where
  "two_pages = PDict [(''pages'', PList [one_line_page [''A'', ''B''], one_line_page [''C'']])]"

definition sparse_export :: pyval where
  "sparse_export =
     PDict [(''pages'', PList
       [PDict [],
        PDict [(''blocks'', PList [PDict [], PDict [(''lines'', PList [PDict []])]])],
        PDict [(''blocks'', PList [PDict [(''lines'', PList
          [PDict [(''words'', PList [PDict [], word_of [], word_of ''x''])]])]])]])]"

section \<open>The path resolver\<close>

text \<open>
  \<^verbatim>\<open>path_resolver.py\<close> works on \<^verbatim>\<open>pathlib.Path\<close>. The model takes the POSIX flavour of
  pathlib: a path is its root (empty, \<^verbatim>\<open>/\<close> or \<^verbatim>\<open>//\<close>) and the segments after it.
\<close>

text \<open>
  An exception raised by a call into a library or into the operating system, with the text
  that \<^verbatim>\<open>str(e)\<close> gives. \<open>Exception\<close> stands for the instances of Python's class
  \<^verbatim>\<open>Exception\<close>, which \<^verbatim>\<open>except Exception\<close> catches; \<open>BaseException\<close> for the others
  (\<^verbatim>\<open>KeyboardInterrupt\<close>, \<^verbatim>\<open>SystemExit\<close>), which it lets through.
\<close>

datatype exn = Exception string | BaseException string

fun is_exception :: "exn \<Rightarrow> bool" where
  "is_exception (Exception m) = True"
| "is_exception (BaseException m) = False"

fun message :: "exn \<Rightarrow> string" where
  "message (Exception m) = m"
| "message (BaseException m) = m"

record path =
  path_root :: string
  path_tail :: "string list"

text \<open>\<^verbatim>\<open>s.split("/")\<close>.\<close>

fun split_sep :: "string \<Rightarrow> string list" where
  "split_sep [] = ['''']"
| "split_sep (c # cs) =
     (if c = CHR ''/'' then [] # split_sep cs
      else (case split_sep cs of [] \<Rightarrow> [c # ''''] | x # xs \<Rightarrow> (c # x) # xs))"

text \<open>
  The root of a path string: none when it does not start with a slash, \<^verbatim>\<open>//\<close> when it
  starts with exactly two, \<^verbatim>\<open>/\<close> otherwise. The second component is the text after the
  root.
\<close>

fun splitroot :: "string \<Rightarrow> string \<times> string" where
  "splitroot [] = ([], [])"
| "splitroot (c1 # r1) =
     (if c1 \<noteq> CHR ''/'' then ([], c1 # r1)
      else (case r1 of
              [] \<Rightarrow> (''/'', r1)
            | c2 # r2 \<Rightarrow>
                if c2 \<noteq> CHR ''/'' \<or> (case r2 of [] \<Rightarrow> False | c3 # _ \<Rightarrow> c3 = CHR ''/'')
                then (''/'', r1)
                else (''//'', r2)))"

text \<open>\<^verbatim>\<open>Path(s)\<close>: the empty segments and the segments \<^verbatim>\<open>.\<close> are dropped when parsing.\<close>

definition Path :: "string \<Rightarrow> path" where
  "Path s =
     \<lparr>path_root = fst (splitroot s),
      path_tail = filter (\<lambda>x. x \<noteq> [] \<and> x \<noteq> ''.'') (split_sep (snd (splitroot s)))\<rparr>"

definition is_absolute :: "path \<Rightarrow> bool" where
  "is_absolute p = (path_root p \<noteq> [])"

text \<open>\<^verbatim>\<open>d / p\<close>: an absolute right operand replaces the left one.\<close>

definition joinpath :: "path \<Rightarrow> path \<Rightarrow> path" where
  "joinpath d p =
     (if is_absolute p then p
      else \<lparr>path_root = path_root d, path_tail = path_tail d @ path_tail p\<rparr>)"

text \<open>\<^verbatim>\<open>str(p)\<close>, which an f-string prints as well.\<close>

definition str_path :: "path \<Rightarrow> string" where
  "str_path p =
     (if path_root p = [] \<and> path_tail p = [] then ''.''
      else path_root p @ str_join ''/'' (path_tail p))"

text \<open>\<^verbatim>\<open>p.parent\<close>: a path without segments is its own parent.\<close>

definition parent :: "path \<Rightarrow> path" where
  "parent p = p\<lparr>path_tail := butlast (path_tail p)\<rparr>"

text \<open>
  What the resolver reads from the machine it runs on: the current working directory
  (\<^verbatim>\<open>Path.cwd()\<close>, which raises when the directory is gone) and the answer of the file
  system to \<^verbatim>\<open>Path.resolve()\<close>, which depends on the symbolic links present and raises on
  a loop of them.
\<close>

record host =
  cwd :: "exn + path"
  resolve :: "path \<Rightarrow> exn + path"

text \<open>
  \<^verbatim>\<open>resolve_input_path\<close> (path_resolver.py, lines 3 to 26). The function has no handler
  of its own: an exception of line 23 leaves it.
\<close>

definition resolve_input_path :: "host \<Rightarrow> string \<Rightarrow> exn + path" where
  "resolve_input_path h user_path =
     (let p = Path user_path
      in if \<not> is_absolute p then
           (case cwd h of
              Inl e \<Rightarrow> Inl e
            | Inr d \<Rightarrow> resolve h (joinpath d p))
         else Inr p)"

text \<open>
  Normalisation in the words of section 4.1 of the specification: the segments \<^verbatim>\<open>..\<close> are
  resolved (each removes the segment before it, and has no effect at the root); parsing has
  already collapsed the redundant separators and the segments \<^verbatim>\<open>.\<close>.
\<close>

fun collapse :: "string list \<Rightarrow> string list \<Rightarrow> string list" where
  "collapse done [] = done"
| "collapse done (x # xs) =
     (if x = ''..'' then collapse (butlast done) xs else collapse (done @ [x]) xs)"

definition normalize_path :: "path \<Rightarrow> path" where
  "normalize_path p = p\<lparr>path_tail := collapse [] (path_tail p)\<rparr>"

text \<open>
  A machine whose file system has no symbolic link, with working directory \<open>d\<close>: there
  \<^verbatim>\<open>Path.resolve()\<close> of an absolute path is its normalisation, and neither call raises.
\<close>

definition plain_host :: "path \<Rightarrow> host" where
  "plain_host d = \<lparr>cwd = Inr d, resolve = (\<lambda>p. Inr (normalize_path p))\<rparr>"

section \<open>The command line driver\<close>

text \<open>
  \<^verbatim>\<open>main\<close> (main.py, lines 67 to 181). The options of the command line are a record in
  which an option that was not given is \<open>None\<close>; \<open>parse_args\<close> fills in the defaults that
  lines 84 to 115 declare.
\<close>

record cli =
  cli_image_path :: string
  cli_json_out :: "string option"
  cli_det_arch :: "string option"
  cli_reco_arch :: "string option"
  cli_no_text :: bool

record args =
  image_path :: string
  json_out :: string
  det_arch :: string
  reco_arch :: string
  no_text :: bool

definition parse_args :: "cli \<Rightarrow> args" where
  "parse_args c =
     \<lparr>image_path = cli_image_path c,
      json_out = (case cli_json_out c of None \<Rightarrow> '''' | Some v \<Rightarrow> v),
      det_arch = (case cli_det_arch c of None \<Rightarrow> ''db_resnet50'' | Some v \<Rightarrow> v),
      reco_arch = (case cli_reco_arch c of None \<Rightarrow> ''crnn_vgg16_bn'' | Some v \<Rightarrow> v),
      no_text = cli_no_text c\<rparr>"

text \<open>
  \<^verbatim>\<open>Path.exists()\<close> and \<^verbatim>\<open>Path.is_file()\<close> call \<^verbatim>\<open>stat\<close>. They answer \<^verbatim>\<open>False\<close> when it
  fails with one of the error numbers pathlib ignores, and raise its \<^verbatim>\<open>OSError\<close> when it
  fails with another one.
\<close>

datatype errno = ENOENT | ENOTDIR | EBADF | ELOOP | ENAMETOOLONG | EACCES | EIO

datatype os_error = OS_error (errno: errno) (strerror: string)

datatype file_kind = Regular_file | Directory | Other_kind

fun ignore_error :: "errno \<Rightarrow> bool" where
  "ignore_error ENOENT = True"
| "ignore_error ENOTDIR = True"
| "ignore_error EBADF = True"
| "ignore_error ELOOP = True"
| "ignore_error _ = False"

text \<open>
  The collaborators of \<^verbatim>\<open>main\<close>: the operating system, the standard streams and docTR.
  \<open>'d\<close>, \<open>'m\<close> and \<open>'r\<close> are docTR's documents, models and results. A call that may
  raise returns the exception on the left, or as \<open>Some\<close> when it returns nothing.
  \<open>error_text\<close> is the message the interpreter gives an error of the flattener.
\<close>

record ('d, 'm, 'r) env =
  os :: host
  os_stat :: "path \<Rightarrow> os_error + file_kind"
  from_images :: "string \<Rightarrow> exn + 'd"
  ocr_predictor :: "string \<Rightarrow> string \<Rightarrow> bool \<Rightarrow> exn + 'm"
  run_model :: "'m \<Rightarrow> 'd \<Rightarrow> exn + 'r"
  result_export :: "'r \<Rightarrow> exn + pyval"
  mkdir_parents :: "path \<Rightarrow> exn option"
  write_json :: "path \<Rightarrow> pyval \<Rightarrow> exn option"
  print_stdout :: "string \<Rightarrow> exn option"
  print_stderr :: "string \<Rightarrow> exn option"
  error_text :: "py_error \<Rightarrow> string"

definition path_exists :: "('d, 'm, 'r) env \<Rightarrow> path \<Rightarrow> exn + bool" where
  "path_exists env p =
     (case os_stat env p of
        Inr k \<Rightarrow> Inr True
      | Inl e \<Rightarrow> if ignore_error (errno e) then Inr False else Inl (Exception (strerror e)))"

definition path_is_file :: "('d, 'm, 'r) env \<Rightarrow> path \<Rightarrow> exn + bool" where
  "path_is_file env p =
     (case os_stat env p of
        Inr k \<Rightarrow> Inr (k = Regular_file)
      | Inl e \<Rightarrow> if ignore_error (errno e) then Inr False else Inl (Exception (strerror e)))"

text \<open>
  What a run does to the outside, in order: the lines it has printed and the calls it has
  made. A call is recorded when it is made, a line when \<^verbatim>\<open>print\<close> has returned.
\<close>

datatype event =
    Stdout string
  | Stderr string
  | Call_from_images string
  | Call_ocr_predictor string string bool
  | Call_model
  | Call_export
  | Mkdir path
  | Write_json path pyval

fun is_ocr_call :: "event \<Rightarrow> bool" where
  "is_ocr_call (Call_from_images _) = True"
| "is_ocr_call (Call_ocr_predictor _ _ _) = True"
| "is_ocr_call Call_model = True"
| "is_ocr_call Call_export = True"
| "is_ocr_call _ = False"

fun is_fs_write :: "event \<Rightarrow> bool" where
  "is_fs_write (Mkdir _) = True"
| "is_fs_write (Write_json _ _) = True"
| "is_fs_write _ = False"

text \<open>
  How \<^verbatim>\<open>main\<close> ends: it returns its exit code, which line 189 hands to \<^verbatim>\<open>SystemExit\<close>, or
  an exception leaves it and the interpreter ends the process.
\<close>

datatype outcome = Returned int | Raised exn

record run =
  outcome :: outcome
  trace :: "event list"

text \<open>Lines 138 to 156: loading the image, building the model, inference, export.\<close>

definition ocr_step ::
  "('d, 'm, 'r) env \<Rightarrow> args \<Rightarrow> path \<Rightarrow> event list \<times> (exn + pyval)" where
  "ocr_step env a img_path =
     (let ev1 = [Call_from_images (str_path img_path)];
          ev2 = ev1 @ [Call_ocr_predictor (det_arch a) (reco_arch a) True];
          ev3 = ev2 @ [Call_model];
          ev4 = ev3 @ [Call_export]
      in case from_images env (str_path img_path) of
           Inl e \<Rightarrow> (ev1, Inl e)
         | Inr doc \<Rightarrow>
             (case ocr_predictor env (det_arch a) (reco_arch a) True of
                Inl e \<Rightarrow> (ev2, Inl e)
              | Inr model \<Rightarrow>
                  (case run_model env model doc of
                     Inl e \<Rightarrow> (ev3, Inl e)
                   | Inr result \<Rightarrow>
                       (case result_export env result of
                          Inl e \<Rightarrow> (ev4, Inl e)
                        | Inr exported \<Rightarrow> (ev4, Inr exported)))))"

text \<open>Lines 159 to 168: the optional JSON file.\<close>

definition json_step ::
  "('d, 'm, 'r) env \<Rightarrow> args \<Rightarrow> pyval \<Rightarrow> event list \<times> exn option" where
  "json_step env a exported =
     (if json_out a \<noteq> [] then
        (case resolve_input_path (os env) (json_out a) of
           Inl e \<Rightarrow> ([], Some e)
         | Inr out_path \<Rightarrow>
             (case mkdir_parents env (parent out_path) of
                Some e \<Rightarrow> ([Mkdir (parent out_path)], Some e)
              | None \<Rightarrow>
                  ([Mkdir (parent out_path), Write_json out_path exported],
                   write_json env out_path exported)))
      else ([], None))"

text \<open>
  Lines 171 to 173: the optional text. An error of the flattener is an instance of
  \<^verbatim>\<open>Exception\<close>.
\<close>

definition text_step ::
  "('d, 'm, 'r) env \<Rightarrow> args \<Rightarrow> pyval \<Rightarrow> event list \<times> exn option" where
  "text_step env a exported =
     (if \<not> no_text a then
        (case extract_text_from_doctr_export exported of
           Inl err \<Rightarrow> ([], Some (Exception (error_text env err)))
         | Inr text \<Rightarrow>
             (case print_stdout env text of
                Some e \<Rightarrow> ([], Some e)
              | None \<Rightarrow> ([Stdout text], None)))
      else ([], None))"

text \<open>
  Lines 134 to 176, the body of \<^verbatim>\<open>try\<close>: the events up to the first exception, and that
  exception if there is one.
\<close>

definition try_body ::
  "('d, 'm, 'r) env \<Rightarrow> args \<Rightarrow> path \<Rightarrow> event list \<times> exn option" where
  "try_body env a img_path =
     (case ocr_step env a img_path of
        (ev1, Inl e) \<Rightarrow> (ev1, Some e)
      | (ev1, Inr exported) \<Rightarrow>
          (case json_step env a exported of
             (ev2, Some e) \<Rightarrow> (ev1 @ ev2, Some e)
           | (ev2, None) \<Rightarrow>
               (case text_step env a exported of
                  (ev3, r) \<Rightarrow> (ev1 @ ev2 @ ev3, r))))"

text \<open>
  \<^verbatim>\<open>print(msg, file=sys.stderr)\<close> followed by \<^verbatim>\<open>return code\<close>, after the events \<open>evs\<close>
  (lines 125 and 126, 130 and 131, 180 and 181). No handler encloses these lines.
\<close>

definition report ::
  "('d, 'm, 'r) env \<Rightarrow> event list \<Rightarrow> string \<Rightarrow> int \<Rightarrow> run" where
  "report env evs msg code =
     (case print_stderr env msg of
        Some e \<Rightarrow> \<lparr>outcome = Raised e, trace = evs\<rparr>
      | None \<Rightarrow> \<lparr>outcome = Returned code, trace = evs @ [Stderr msg]\<rparr>)"

text \<open>
  \<^verbatim>\<open>main\<close>. Lines 121 to 131 stand before the \<^verbatim>\<open>try\<close>: an exception raised there leaves
  \<^verbatim>\<open>main\<close>. The handler of line 178 takes the instances of \<^verbatim>\<open>Exception\<close> only.
\<close>

definition main :: "('d, 'm, 'r) env \<Rightarrow> cli \<Rightarrow> run" where
  "main env c =
     (let args = parse_args c
      in case resolve_input_path (os env) (image_path args) of
           Inl e \<Rightarrow> \<lparr>outcome = Raised e, trace = []\<rparr>
         | Inr img_path \<Rightarrow>
             (case path_exists env img_path of
                Inl e \<Rightarrow> \<lparr>outcome = Raised e, trace = []\<rparr>
              | Inr found \<Rightarrow>
                  if \<not> found then
                    report env [] (''ERROR: File not found: '' @ str_path img_path) 2
                  else
                    (case path_is_file env img_path of
                       Inl e \<Rightarrow> \<lparr>outcome = Raised e, trace = []\<rparr>
                     | Inr regular \<Rightarrow>
                         if \<not> regular then
                           report env [] (''ERROR: Not a file: '' @ str_path img_path) 2
                         else
                           (case try_body env args img_path of
                              (evs, None) \<Rightarrow> \<lparr>outcome = Returned 0, trace = evs\<rparr>
                            | (evs, Some e) \<Rightarrow>
                                if is_exception e then
                                  report env evs (''ERROR: OCR failed: '' @ message e) 1
                                else \<lparr>outcome = Raised e, trace = evs\<rparr>))))"

text \<open>Machines used as concrete inputs.\<close>

definition home_host :: host where
  "home_host = plain_host (Path ''/home/u'')"

text \<open>
  A machine on which \<^verbatim>\<open>/home/u/a.png\<close> is the only file, names of more than 255
  characters are refused, \<^verbatim>\<open>/ro\<close> cannot be created and docTR returns two pages.
\<close>

definition stub_stat :: "path \<Rightarrow> os_error + file_kind" where
  "stub_stat p =
     (if list_ex (\<lambda>seg. 255 < length seg) (path_tail p) then
        Inl (OS_error ENAMETOOLONG ''File name too long'')
      else if p = Path ''/home/u/a.png'' then Inr Regular_file
      else if p = Path ''/home/u'' then Inr Directory
      else Inl (OS_error ENOENT ''No such file or directory''))"

definition stub_env :: "(unit, unit, unit) env" where
  "stub_env =
     \<lparr>os = home_host,
      os_stat = stub_stat,
      from_images = (\<lambda>s. Inr ()),
      ocr_predictor = (\<lambda>d r t. Inr ()),
      run_model = (\<lambda>m d. Inr ()),
      result_export = (\<lambda>r. Inr two_pages),
      mkdir_parents =
        (\<lambda>p. if p = Path ''/ro'' then Some (Exception ''Permission denied'') else None),
      write_json = (\<lambda>p v. None),
      print_stdout = (\<lambda>s. None),
      print_stderr = (\<lambda>s. None),
      error_text = (\<lambda>e. ''error'')\<rparr>"

definition stub_cli :: "string \<Rightarrow> string option \<Rightarrow> cli" where
  "stub_cli img out =
     \<lparr>cli_image_path = img, cli_json_out = out, cli_det_arch = None,
      cli_reco_arch = None, cli_no_text = False\<rparr>"

text \<open>The same machine with an inference that raises.\<close>

definition failing_env :: "(unit, unit, unit) env" where
  "failing_env = stub_env\<lparr>run_model := (\<lambda>m d. Inl (Exception ''out of memory''))\<rparr>"

text \<open>
  The same machine with a standard output that takes the code points below 128 only, and a
  docTR that reads a word with another one.
\<close>

definition cafe_export :: pyval where
  "cafe_export = PDict [(''pages'', PList [one_line_page [''caf'' @ [CHR 0xE9]]])]"

definition ascii_env :: "(unit, unit, unit) env" where
  "ascii_env =
     stub_env
       \<lparr>result_export := (\<lambda>r. Inr cafe_export),
        print_stdout :=
          (\<lambda>s. if list_all (\<lambda>c. (of_char c :: nat) < 128) s then None
                else Some (Exception ''ascii codec cannot encode''))\<rparr>"


section \<open>The JSON file\<close>

text \<open>
  Line 168 writes the export with \<^verbatim>\<open>json.dump(exported, f, ensure_ascii=False, indent=2)\<close>.
  The writer and the reader of JSON are the \<^verbatim>\<open>json\<close> module of Python's library; the
  repository holds neither, and never reads the file back. A text is a list of code
  points; the numbers of type \<^verbatim>\<open>float\<close> are printed and read by two parameters,
  \<open>fr\<close> for \<^verbatim>\<open>float.__repr__\<close> and \<open>fp\<close> for \<^verbatim>\<open>float()\<close>.
\<close>

definition digit_char :: "nat \<Rightarrow> char" where
  "digit_char d = char_of (48 + d)"

definition is_digit :: "char \<Rightarrow> bool" where
  "is_digit c = (48 \<le> (of_char c :: nat) \<and> (of_char c :: nat) \<le> 57)"

definition digit_val :: "char \<Rightarrow> nat" where
  "digit_val c = of_char c - 48"

text \<open>The decimal digits of a natural number, without leading zero.\<close>

fun show_nat :: "nat \<Rightarrow> string" where
  "show_nat n = (if n < 10 then [digit_char n] else show_nat (n div 10) @ [digit_char (n mod 10)])"

declare show_nat.simps [simp del]

definition show_int :: "int \<Rightarrow> string" where
  "show_int i = (if i < 0 then CHR ''-'' # show_nat (nat (- i)) else show_nat (nat i))"

definition hex_digit :: "nat \<Rightarrow> char" where
  "hex_digit d = (if d < 10 then char_of (48 + d) else char_of (87 + d))"

text \<open>
  Modelled from the spec: the writer of section 6 (UTF-8 JSON, indented, non-ASCII
  characters unescaped), which is \<^verbatim>\<open>json.dump\<close> with \<^verbatim>\<open>ensure_ascii=False\<close> and
  \<^verbatim>\<open>indent=2\<close>. A string is printed between quotes; the quote, the backslash and the code
  points below 32 are escaped, every other character is printed as it is.
\<close>

definition escape_char :: "char \<Rightarrow> string" where
  "escape_char c =
     (if c = CHR 0x22 then [CHR 0x5C, CHR 0x22]
      else if c = CHR 0x5C then [CHR 0x5C, CHR 0x5C]
      else if c = CHR 0x0A then [CHR 0x5C, CHR ''n'']
      else if c = CHR 0x0D then [CHR 0x5C, CHR ''r'']
      else if c = CHR 0x09 then [CHR 0x5C, CHR ''t'']
      else if c = CHR 0x08 then [CHR 0x5C, CHR ''b'']
      else if c = CHR 0x0C then [CHR 0x5C, CHR ''f'']
      else if (of_char c :: nat) < 32 then
        [CHR 0x5C, CHR ''u'', CHR ''0'', CHR ''0'',
         hex_digit (of_char c div 16), hex_digit (of_char c mod 16)]
      else [c])"

definition encode_str :: "string \<Rightarrow> string" where
  "encode_str s = CHR 0x22 # concat (map escape_char s) @ [CHR 0x22]"

text \<open>A newline and the indentation of nesting level \<open>lvl\<close>, two spaces a level.\<close>

definition nl_indent :: "nat \<Rightarrow> string" where
  "nl_indent lvl = CHR 0x0A # replicate (2 * lvl) (CHR '' '')"

text \<open>
  Modelled from the spec: the same writer, on values. An empty list or dictionary is
  printed as \<^verbatim>\<open>[]\<close> or \<^verbatim>\<open>{}\<close>; otherwise every item stands on a line of its own, the items
  are separated by a comma and a key is followed by a colon and a space.
\<close>

fun encode :: "(real \<Rightarrow> string) \<Rightarrow> nat \<Rightarrow> pyval \<Rightarrow> string"
  and encode_items :: "(real \<Rightarrow> string) \<Rightarrow> nat \<Rightarrow> pyval list \<Rightarrow> string"
  and encode_members :: "(real \<Rightarrow> string) \<Rightarrow> nat \<Rightarrow> (string \<times> pyval) list \<Rightarrow> string"
where
  "encode fr lvl PNone = ''null''"
| "encode fr lvl (PBool b) = (if b then ''true'' else ''false'')"
| "encode fr lvl (PInt i) = show_int i"
| "encode fr lvl (PFloat r) = fr r"
| "encode fr lvl (PStr s) = encode_str s"
| "encode fr lvl (PList xs) =
     (if xs = [] then ''[]''
      else ''['' @ nl_indent (Suc lvl) @ encode_items fr (Suc lvl) xs @ nl_indent lvl @ '']'')"
| "encode fr lvl (PDict kvs) =
     (if kvs = [] then ''{}''
      else ''{'' @ nl_indent (Suc lvl) @ encode_members fr (Suc lvl) kvs @ nl_indent lvl @ ''}'')"
| "encode_items fr lvl [] = []"
| "encode_items fr lvl [x] = encode fr lvl x"
| "encode_items fr lvl (x # y # ys) =
     encode fr lvl x @ '','' @ nl_indent lvl @ encode_items fr lvl (y # ys)"
| "encode_members fr lvl [] = []"
| "encode_members fr lvl [(k, v)] = encode_str k @ '': '' @ encode fr lvl v"
| "encode_members fr lvl ((k, v) # m # ms) =
     encode_str k @ '': '' @ encode fr lvl v @ '','' @ nl_indent lvl @
     encode_members fr lvl (m # ms)"

definition json_dumps :: "(real \<Rightarrow> string) \<Rightarrow> pyval \<Rightarrow> string" where
  "json_dumps fr v = encode fr 0 v"

text \<open>
  Modelled from the spec: the reader of the round trip of section 8, which is
  \<^verbatim>\<open>json.loads\<close>. White space is the space, the tabulator, the newline and the carriage
  return.
\<close>

definition is_ws :: "char \<Rightarrow> bool" where
  "is_ws c = (c = CHR '' '' \<or> c = CHR 0x09 \<or> c = CHR 0x0A \<or> c = CHR 0x0D)"

definition skip_ws :: "string \<Rightarrow> string" where
  "skip_ws s = dropWhile is_ws s"

definition hex_val :: "char \<Rightarrow> nat option" where
  "hex_val c =
     (let n = (of_char c :: nat)
      in if 48 \<le> n \<and> n \<le> 57 then Some (n - 48)
         else if 97 \<le> n \<and> n \<le> 102 then Some (n - 87)
         else if 65 \<le> n \<and> n \<le> 70 then Some (n - 55)
         else None)"

text \<open>The four hexadecimal digits of an escape \<^verbatim>\<open>\uXXXX\<close>.\<close>

definition hex4 :: "char \<Rightarrow> char \<Rightarrow> char \<Rightarrow> char \<Rightarrow> nat option" where
  "hex4 h1 h2 h3 h4 =
     (case (hex_val h1, hex_val h2, hex_val h3, hex_val h4) of
        (Some a, Some b, Some c, Some d) \<Rightarrow> Some (((a * 16 + b) * 16 + c) * 16 + d)
      | _ \<Rightarrow> None)"

text \<open>The character an escape letter stands for.\<close>

definition unescape :: "char \<Rightarrow> char option" where
  "unescape e =
     (if e = CHR 0x22 then Some (CHR 0x22)
      else if e = CHR 0x5C then Some (CHR 0x5C)
      else if e = CHR ''/'' then Some (CHR ''/'')
      else if e = CHR ''b'' then Some (CHR 0x08)
      else if e = CHR ''f'' then Some (CHR 0x0C)
      else if e = CHR ''n'' then Some (CHR 0x0A)
      else if e = CHR ''r'' then Some (CHR 0x0D)
      else if e = CHR ''t'' then Some (CHR 0x09)
      else None)"

text \<open>
  The string that starts after an opening quote, and the text after its closing quote. A
  code point below 32 must be escaped; an escape of a code point from 256 on has no value
  in the model and is refused.
\<close>

fun scan_string :: "string \<Rightarrow> (string \<times> string) option" where
  "scan_string [] = None"
| "scan_string (c # cs) =
     (if c = CHR 0x22 then Some ([], cs)
      else if c = CHR 0x5C then
        (case cs of
           [] \<Rightarrow> None
         | e # r \<Rightarrow>
             if e = CHR ''u'' then
               (case r of
                  h1 # h2 # h3 # h4 # r' \<Rightarrow>
                    (case hex4 h1 h2 h3 h4 of
                       None \<Rightarrow> None
                     | Some n \<Rightarrow>
                         if n < 256 then
                           (case scan_string r' of
                              None \<Rightarrow> None
                            | Some (s, t) \<Rightarrow> Some (char_of n # s, t))
                         else None)
                | _ \<Rightarrow> None)
             else
               (case unescape e of
                  None \<Rightarrow> None
                | Some ch \<Rightarrow>
                    (case scan_string r of
                       None \<Rightarrow> None
                     | Some (s, t) \<Rightarrow> Some (ch # s, t))))
      else if (of_char c :: nat) < 32 then None
      else
        (case scan_string cs of
           None \<Rightarrow> None
         | Some (s, t) \<Rightarrow> Some (c # s, t)))"

text \<open>
  A number is an integer part, \<^verbatim>\<open>0\<close> or a digit from 1 to 9 followed by digits, after an
  optional minus sign, then an optional fraction and an optional exponent. Each function
  returns the text it has read and the text that follows.
\<close>

definition lex_nat :: "string \<Rightarrow> (string \<times> string) option" where
  "lex_nat s =
     (case s of
        [] \<Rightarrow> None
      | c # r \<Rightarrow>
          if c = CHR ''0'' then Some ([c], r)
          else if is_digit c then Some (c # takeWhile is_digit r, dropWhile is_digit r)
          else None)"

definition lex_int :: "string \<Rightarrow> (string \<times> string) option" where
  "lex_int s =
     (case s of
        [] \<Rightarrow> None
      | c # r \<Rightarrow>
          if c = CHR ''-'' then
            (case lex_nat r of None \<Rightarrow> None | Some (ds, t) \<Rightarrow> Some (c # ds, t))
          else lex_nat s)"

definition lex_frac :: "string \<Rightarrow> string \<times> string" where
  "lex_frac s =
     (case s of
        [] \<Rightarrow> ([], s)
      | c # r \<Rightarrow>
          if c = CHR ''.'' \<and> takeWhile is_digit r \<noteq> []
          then (c # takeWhile is_digit r, dropWhile is_digit r)
          else ([], s))"

definition lex_sign :: "string \<Rightarrow> string \<times> string" where
  "lex_sign s =
     (case s of
        [] \<Rightarrow> ([], s)
      | c # r \<Rightarrow> if c = CHR ''+'' \<or> c = CHR ''-'' then ([c], r) else ([], s))"

definition lex_exp :: "string \<Rightarrow> string \<times> string" where
  "lex_exp s =
     (case s of
        [] \<Rightarrow> ([], s)
      | c # r \<Rightarrow>
          if (c = CHR ''e'' \<or> c = CHR ''E'') \<and> takeWhile is_digit (snd (lex_sign r)) \<noteq> []
          then (c # fst (lex_sign r) @ takeWhile is_digit (snd (lex_sign r)),
                dropWhile is_digit (snd (lex_sign r)))
          else ([], s))"

text \<open>The three parts of the number at the head of a text, and the text after it.\<close>

definition lex_number :: "string \<Rightarrow> (string \<times> string \<times> string \<times> string) option" where
  "lex_number s =
     (case lex_int s of
        None \<Rightarrow> None
      | Some (i, r1) \<Rightarrow>
          Some (i, fst (lex_frac r1), fst (lex_exp (snd (lex_frac r1))),
                snd (lex_exp (snd (lex_frac r1)))))"

text \<open>\<^verbatim>\<open>int()\<close> of an integer part.\<close>

definition read_nat :: "string \<Rightarrow> nat" where
  "read_nat ds = foldl (\<lambda>n c. 10 * n + digit_val c) 0 ds"

definition read_int :: "string \<Rightarrow> int" where
  "read_int s =
     (case s of
        [] \<Rightarrow> 0
      | c # r \<Rightarrow> if c = CHR ''-'' then - int (read_nat r) else int (read_nat s))"

text \<open>A number with a fraction or an exponent is a float, any other an integer.\<close>

definition scan_number :: "(string \<Rightarrow> real) \<Rightarrow> string \<Rightarrow> (pyval \<times> string) option" where
  "scan_number fp s =
     (case lex_number s of
        None \<Rightarrow> None
      | Some (i, f, e, rest) \<Rightarrow>
          if f = [] \<and> e = [] then Some (PInt (read_int i), rest)
          else Some (PFloat (fp (i @ f @ e)), rest))"

text \<open>
  \<^verbatim>\<open>dict(pairs)\<close>: a key that comes again takes the later value and keeps its place.
\<close>

fun dict_set :: "(string \<times> pyval) list \<Rightarrow> string \<Rightarrow> pyval \<Rightarrow> (string \<times> pyval) list" where
  "dict_set [] k v = [(k, v)]"
| "dict_set ((k', v') # d) k v = (if k' = k then (k, v) # d else (k', v') # dict_set d k v)"

definition dict_of_pairs :: "(string \<times> pyval) list \<Rightarrow> (string \<times> pyval) list" where
  "dict_of_pairs ps = foldl (\<lambda>d kv. dict_set d (fst kv) (snd kv)) [] ps"

definition starts_with :: "string \<Rightarrow> string \<Rightarrow> bool" where
  "starts_with p s = (take (length p) s = p)"

text \<open>
  The value at the head of a text, and the text after it. The first argument bounds the
  depth of the calls, as the interpreter's recursion limit does; \<open>parse_items\<close> reads the
  items of a list after its bracket, \<open>parse_members\<close> the members of a dictionary after its
  brace. The constants \<^verbatim>\<open>NaN\<close> and \<^verbatim>\<open>Infinity\<close> are left to \<open>fp\<close>.
\<close>

fun parse_value :: "(string \<Rightarrow> real) \<Rightarrow> nat \<Rightarrow> string \<Rightarrow> (pyval \<times> string) option"
  and parse_items :: "(string \<Rightarrow> real) \<Rightarrow> nat \<Rightarrow> string \<Rightarrow> (pyval list \<times> string) option"
  and parse_members ::
    "(string \<Rightarrow> real) \<Rightarrow> nat \<Rightarrow> string \<Rightarrow> ((string \<times> pyval) list \<times> string) option"
where
  "parse_value fp 0 s = None"
| "parse_value fp (Suc n) s =
     (case s of
        [] \<Rightarrow> None
      | c # cs \<Rightarrow>
          if c = CHR 0x22 then
            (case scan_string cs of None \<Rightarrow> None | Some (str, t) \<Rightarrow> Some (PStr str, t))
          else if c = CHR ''{'' then
            (case skip_ws cs of
               [] \<Rightarrow> None
             | d # t \<Rightarrow>
                 if d = CHR ''}'' then Some (PDict [], t)
                 else
                   (case parse_members fp n (d # t) of
                      None \<Rightarrow> None
                    | Some (ps, t') \<Rightarrow> Some (PDict (dict_of_pairs ps), t')))
          else if c = CHR ''['' then
            (case skip_ws cs of
               [] \<Rightarrow> None
             | d # t \<Rightarrow>
                 if d = CHR '']'' then Some (PList [], t)
                 else
                   (case parse_items fp n (d # t) of
                      None \<Rightarrow> None
                    | Some (vs, t') \<Rightarrow> Some (PList vs, t')))
          else if starts_with ''null'' s then Some (PNone, drop 4 s)
          else if starts_with ''true'' s then Some (PBool True, drop 4 s)
          else if starts_with ''false'' s then Some (PBool False, drop 5 s)
          else
            (case scan_number fp s of
               Some r \<Rightarrow> Some r
             | None \<Rightarrow>
                 if starts_with ''NaN'' s then Some (PFloat (fp ''NaN''), drop 3 s)
                 else if starts_with ''Infinity'' s then
                   Some (PFloat (fp ''Infinity''), drop 8 s)
                 else if starts_with ''-Infinity'' s then
                   Some (PFloat (fp ''-Infinity''), drop 9 s)
                 else None))"
| "parse_items fp 0 s = None"
| "parse_items fp (Suc n) s =
     (case parse_value fp n s of
        None \<Rightarrow> None
      | Some (v, t) \<Rightarrow>
          (case skip_ws t of
             [] \<Rightarrow> None
           | d # t' \<Rightarrow>
               if d = CHR '']'' then Some ([v], t')
               else if d = CHR '','' then
                 (case parse_items fp n (skip_ws t') of
                    None \<Rightarrow> None
                  | Some (vs, t'') \<Rightarrow> Some (v # vs, t''))
               else None))"
| "parse_members fp 0 s = None"
| "parse_members fp (Suc n) s =
     (case s of
        [] \<Rightarrow> None
      | q # cs \<Rightarrow>
          if q \<noteq> CHR 0x22 then None
          else
            (case scan_string cs of
               None \<Rightarrow> None
             | Some (k, t) \<Rightarrow>
                 (case skip_ws t of
                    [] \<Rightarrow> None
                  | col # t1 \<Rightarrow>
                      if col \<noteq> CHR '':'' then None
                      else
                        (case parse_value fp n (skip_ws t1) of
                           None \<Rightarrow> None
                         | Some (v, t2) \<Rightarrow>
                             (case skip_ws t2 of
                                [] \<Rightarrow> None
                              | d # t3 \<Rightarrow>
                                  if d = CHR ''}'' then Some ([(k, v)], t3)
                                  else if d = CHR '','' then
                                    (case parse_members fp n (skip_ws t3) of
                                       None \<Rightarrow> None
                                     | Some (ps, t4) \<Rightarrow> Some ((k, v) # ps, t4))
                                  else None)))))"

text \<open>
  \<^verbatim>\<open>json.loads\<close>: one value between white space, and nothing after it. No chain of calls
  is longer than twice the text.
\<close>

definition json_loads :: "(string \<Rightarrow> real) \<Rightarrow> string \<Rightarrow> pyval option" where
  "json_loads fp s =
     (case parse_value fp (2 * length s + 2) (skip_ws s) of
        None \<Rightarrow> None
      | Some (v, t) \<Rightarrow> if skip_ws t = [] then Some v else None)"

text \<open>
  The values the round trip is stated for: a dictionary has no key twice, as in Python,
  and every float satisfies \<open>P\<close>.
\<close>

fun json_ok :: "(real \<Rightarrow> bool) \<Rightarrow> pyval \<Rightarrow> bool"
  and json_ok_items :: "(real \<Rightarrow> bool) \<Rightarrow> pyval list \<Rightarrow> bool"
  and json_ok_members :: "(real \<Rightarrow> bool) \<Rightarrow> (string \<times> pyval) list \<Rightarrow> bool"
where
  "json_ok P (PFloat r) = P r"
| "json_ok P (PList xs) = json_ok_items P xs"
| "json_ok P (PDict kvs) = (distinct (map fst kvs) \<and> json_ok_members P kvs)"
| "json_ok P v = True"
| "json_ok_items P [] = True"
| "json_ok_items P (x # xs) = (json_ok P x \<and> json_ok_items P xs)"
| "json_ok_members P [] = True"
| "json_ok_members P ((k, v) # ms) = (json_ok P v \<and> json_ok_members P ms)"

text \<open>
  A float is printed as a number with a fraction or an exponent, and read back from this
  text as the same float.
\<close>

definition float_round_trip :: "(real \<Rightarrow> string) \<Rightarrow> (string \<Rightarrow> real) \<Rightarrow> real \<Rightarrow> bool" where
  "float_round_trip fr fp r =
     (case lex_number (fr r) of
        None \<Rightarrow> False
      | Some (i, f, e, rest) \<Rightarrow> rest = [] \<and> (f \<noteq> [] \<or> e \<noteq> []) \<and> fp (fr r) = r)"

text \<open>A printer and a reader of floats that know one half, for concrete inputs.\<close>

definition half_repr :: "real \<Rightarrow> string" where
  "half_repr r = (if r = 1 / 2 then ''0.5'' else ''0.0'')"

definition half_float :: "string \<Rightarrow> real" where
  "half_float s = (if s = ''0.5'' then 1 / 2 else 0)"

definition tricky_export :: pyval where
  "tricky_export =
     PDict [(''pages'', PList [one_line_page [''say '' @ [CHR 0x22, CHR 0x5C, CHR 0x0A, CHR 0x01, CHR 0xE9]]]),
            (''n'', PInt (- 120)), (''none'', PNone), (''ok'', PBool True), (''e'', PList [])]"

text \<open>What follows a value in the text of the writer: nothing, a comma or a newline.\<close>

definition value_end :: "string \<Rightarrow> bool" where
  "value_end rest = (case rest of [] \<Rightarrow> True | c # _ \<Rightarrow> c = CHR '','' \<or> c = CHR 0x0A)"

text \<open>
  Modelled from the spec: the file of section 6 is written and read as UTF-8, which is the
  \<^verbatim>\<open>encoding="utf-8"\<close> of line 167. A code point below 128 is one byte, a code point from
  128 to 255 two bytes. A byte sequence that stands for a code point from 256 on has no
  value in the model and is refused, as an ill-formed one is.
\<close>

definition utf8_char :: "char \<Rightarrow> string" where
  "utf8_char c =
     (if (of_char c :: nat) < 128 then [c]
      else [char_of (192 + (of_char c :: nat) div 64), char_of (128 + (of_char c :: nat) mod 64)])"

definition utf8_encode :: "string \<Rightarrow> string" where
  "utf8_encode s = concat (map utf8_char s)"

fun utf8_decode :: "string \<Rightarrow> string option" where
  "utf8_decode [] = Some []"
| "utf8_decode [b] = (if (of_char b :: nat) < 128 then Some [b] else None)"
| "utf8_decode (b # b2 # bs) =
     (if (of_char b :: nat) < 128 then
        (case utf8_decode (b2 # bs) of None \<Rightarrow> None | Some s \<Rightarrow> Some (b # s))
      else if 194 \<le> (of_char b :: nat) \<and> (of_char b :: nat) \<le> 195 \<and>
              128 \<le> (of_char b2 :: nat) \<and> (of_char b2 :: nat) < 192 then
        (case utf8_decode bs of
           None \<Rightarrow> None
         | Some s \<Rightarrow>
             Some (char_of (((of_char b :: nat) - 192) * 64 + ((of_char b2 :: nat) - 128)) # s))
      else None)"

text \<open>The bytes that line 168 writes for an export, and the value read back from bytes.\<close>

definition json_file_bytes :: "(real \<Rightarrow> string) \<Rightarrow> pyval \<Rightarrow> string" where
  "json_file_bytes fr v = utf8_encode (json_dumps fr v)"

definition json_file_load :: "(string \<Rightarrow> real) \<Rightarrow> string \<Rightarrow> pyval option" where
  "json_file_load fp bytes =
     (case utf8_decode bytes of None \<Rightarrow> None | Some text \<Rightarrow> json_loads fp text)"

section \<open>The flattener against the reference definition\<close>

lemma as_strs_map_PStr: "as_strs (map PStr ss) = Some ss"
  by (induction ss) simp_all

lemma py_join_strs: "py_join sep (map PStr ss) = Inr (str_join sep ss)"
  by (simp add: py_join_def as_strs_map_PStr)

lemma wf_word_get:
  assumes "wf_word w"
  shows "py_get w ''value'' (PStr []) = Inr (PStr (word_value w))"
proof (cases w)
  case (PDict kvs)
  show ?thesis
  proof (cases "map_of kvs ''value''")
    case None
    with PDict show ?thesis by (simp add: py_get_def word_value_def field_def)
  next
    case (Some v)
    with PDict assms have "absent_or_str (Some v)" by (simp add: wf_word_def field_def)
    then obtain s where "v = PStr s" by (cases v) simp_all
    with PDict Some show ?thesis by (simp add: py_get_def word_value_def field_def)
  qed
qed (use assms in \<open>simp_all add: wf_word_def is_dict_def\<close>)

lemma words_loop_wf:
  "list_all wf_word ws \<Longrightarrow>
   words_loop acc ws = Inr (acc @ map PStr (filter (\<lambda>s. s \<noteq> []) (map word_value ws)))"
proof (induction ws arbitrary: acc)
  case Nil
  show ?case by simp
next
  case (Cons w ws)
  from Cons.prems have w: "wf_word w" and ws: "list_all wf_word ws" by simp_all
  show ?case by (simp add: wf_word_get [OF w] Cons.IH [OF ws])
qed

text \<open>
  Reading a well-formed collection: \<^verbatim>\<open>obj.get(key, [])\<close> succeeds and the loop over the
  result visits the items the reference definition names.
\<close>

lemma wf_items:
  assumes "is_dict obj" and "absent_or_list P (field obj k)"
  obtains v where "py_get obj k (PList []) = Inr v"
    and "py_iter v = Inr (items_of obj k)"
    and "list_all P (items_of obj k)"
proof (cases obj)
  case (PDict kvs)
  show ?thesis
  proof (cases "map_of kvs k")
    case None
    with PDict have "py_get obj k (PList []) = Inr (PList [])"
      and "py_iter (PList []) = Inr (items_of obj k)"
      and "list_all P (items_of obj k)"
      by (simp_all add: py_get_def py_iter_def items_of_def field_def)
    then show ?thesis by (rule that)
  next
    case (Some v)
    with PDict assms(2) have a: "absent_or_list P (Some v)" by (simp add: field_def)
    then obtain xs where v: "v = PList xs" by (cases v) simp_all
    with a have "list_all P xs" by simp
    with PDict Some v have "py_get obj k (PList []) = Inr (PList xs)"
      and "py_iter (PList xs) = Inr (items_of obj k)"
      and "list_all P (items_of obj k)"
      by (simp_all add: py_get_def py_iter_def items_of_def field_def)
    then show ?thesis by (rule that)
  qed
qed (use assms(1) in \<open>simp_all add: is_dict_def\<close>)

lemma line_step_wf:
  assumes "wf_line l"
  obtains wv ws where "py_get l ''words'' (PList []) = Inr wv"
    and "py_iter wv = Inr ws"
    and "words_loop [] ws = Inr (map PStr (line_values l))"
proof -
  from assms have "is_dict l" and "absent_or_list wf_word (field l ''words'')"
    by (simp_all add: wf_line_def)
  then obtain wv where g: "py_get l ''words'' (PList []) = Inr wv"
    and i: "py_iter wv = Inr (items_of l ''words'')"
    and a: "list_all wf_word (items_of l ''words'')"
    by (rule wf_items)
  from words_loop_wf [OF a, of "[]"]
  have "words_loop [] (items_of l ''words'') = Inr (map PStr (line_values l))"
    by (simp add: line_values_def)
  with g i show ?thesis by (rule that)
qed

lemma lines_loop_wf:
  "list_all wf_line ls \<Longrightarrow>
   lines_loop out ls = Inr (out @ concat (map line_entries ls))"
proof (induction ls arbitrary: out)
  case Nil
  show ?case by simp
next
  case (Cons l ls)
  from Cons.prems have l: "wf_line l" and ls: "list_all wf_line ls" by simp_all
  from l obtain wv ws where g: "py_get l ''words'' (PList []) = Inr wv"
    and i: "py_iter wv = Inr ws"
    and w: "words_loop [] ws = Inr (map PStr (line_values l))"
    by (rule line_step_wf)
  show ?case
  proof (cases "line_values l = []")
    case True
    with g i w show ?thesis by (simp add: Cons.IH [OF ls] line_entries_def)
  next
    case False
    with g i w show ?thesis
      by (simp add: Cons.IH [OF ls] line_entries_def py_join_strs)
  qed
qed

lemma blocks_loop_wf:
  "list_all wf_block bs \<Longrightarrow>
   blocks_loop out bs = Inr (out @ concat (map block_entries bs))"
proof (induction bs arbitrary: out)
  case Nil
  show ?case by simp
next
  case (Cons b bs)
  from Cons.prems have b: "wf_block b" and bs: "list_all wf_block bs" by simp_all
  from b have "is_dict b" and "absent_or_list wf_line (field b ''lines'')"
    by (simp_all add: wf_block_def)
  then obtain lv where g: "py_get b ''lines'' (PList []) = Inr lv"
    and i: "py_iter lv = Inr (items_of b ''lines'')"
    and a: "list_all wf_line (items_of b ''lines'')"
    by (rule wf_items)
  from g i show ?case
    by (simp add: lines_loop_wf [OF a] Cons.IH [OF bs] block_entries_def)
qed

text \<open>
  The page loop, entered at index \<open>i\<close> with the pages from \<open>i\<close> on still to visit: the
  comparison with \<^verbatim>\<open>len(pages) - 1\<close> holds exactly at the last of them.
\<close>

lemma pages_loop_wf:
  "list_all wf_page ps \<Longrightarrow> i + length ps = n \<Longrightarrow>
   pages_loop n out i ps = Inr (out @ separated (map page_entries ps))"
proof (induction ps arbitrary: out i)
  case Nil
  show ?case by simp
next
  case (Cons p ps)
  from Cons.prems(1) have p: "wf_page p" and ps: "list_all wf_page ps" by simp_all
  from p have "is_dict p" and "absent_or_list wf_block (field p ''blocks'')"
    by (simp_all add: wf_page_def)
  then obtain bv where g: "py_get p ''blocks'' (PList []) = Inr bv"
    and it: "py_iter bv = Inr (items_of p ''blocks'')"
    and a: "list_all wf_block (items_of p ''blocks'')"
    by (rule wf_items)
  from Cons.prems(2) have n: "Suc i + length ps = n" by simp
  from g it have step: "pages_loop n out i (p # ps) =
      pages_loop n (if int i \<noteq> int n - 1 then (out @ page_entries p) @ ['''']
                    else out @ page_entries p) (Suc i) ps"
    by (simp add: blocks_loop_wf [OF a] page_entries_def)
  show ?case
  proof (cases ps)
    case Nil
    with Cons.prems(2) have "int i = int n - 1" by simp
    with step Nil show ?thesis by simp
  next
    case (Cons q qs)
    with Cons.prems(2) have "int i \<noteq> int n - 1" by simp
    with step have "pages_loop n out i (p # ps) =
        Inr (((out @ page_entries p) @ ['''']) @ separated (map page_entries ps))"
      by (simp add: Cons.IH [OF ps n])
    with Cons show ?thesis by simp
  qed
qed

lemma output_lines_of_wf:
  assumes "wf_export e"
  shows "output_lines_of e = Inr (spec_output_lines e)"
proof -
  from assms have "is_dict e" and "absent_or_list wf_page (field e ''pages'')"
    by (simp_all add: wf_export_def)
  then obtain pv where g: "py_get e ''pages'' (PList []) = Inr pv"
    and it: "py_iter pv = Inr (items_of e ''pages'')"
    and a: "list_all wf_page (items_of e ''pages'')"
    by (rule wf_items)
  have "pages_loop (length (items_of e ''pages'')) [] 0 (items_of e ''pages'')
        = Inr ([] @ separated (map page_entries (items_of e ''pages'')))"
    by (rule pages_loop_wf [OF a]) simp
  with g it show ?thesis by (simp add: output_lines_of_def spec_output_lines_def)
qed

text \<open>A text line of the output is never empty, so an empty entry is a page separator.\<close>

lemma str_join_nonempty: "xs \<noteq> [] \<Longrightarrow> [] \<notin> set xs \<Longrightarrow> str_join sep xs \<noteq> []"
  by (induction sep xs rule: str_join.induct) simp_all

lemma line_entries_nonempty: "[] \<notin> set (line_entries l)"
proof (cases "line_values l = []")
  case True
  then show ?thesis by (simp add: line_entries_def)
next
  case False
  moreover have "[] \<notin> set (line_values l)" by (simp add: line_values_def)
  ultimately have "str_join '' '' (line_values l) \<noteq> []" by (rule str_join_nonempty)
  with False show ?thesis by (simp add: line_entries_def)
qed

lemma page_entries_nonempty: "[] \<notin> set (page_entries p)"
  by (auto simp: page_entries_def block_entries_def line_entries_nonempty)

lemma separated_blank_count:
  "(\<And>p. p \<in> set ps \<Longrightarrow> [] \<notin> set p) \<Longrightarrow>
   int (length (filter (\<lambda>l. l = []) (separated ps))) =
     (if ps = [] then 0 else int (length ps) - 1)"
proof (induction ps rule: separated.induct)
  case 1
  show ?case by simp
next
  case (2 p)
  from "2.prems" [of p] have "filter (\<lambda>l. l = []) p = []"
    by (auto simp: filter_empty_conv)
  then show ?case by simp
next
  case (3 p q ps)
  from "3.prems" [of p] have p: "filter (\<lambda>l. l = []) p = []"
    by (auto simp: filter_empty_conv)
  have "int (length (filter (\<lambda>l. l = []) (separated (q # ps)))) =
      (if q # ps = [] then 0 else int (length (q # ps)) - 1)"
    by (rule "3.IH") (simp add: "3.prems")
  with p show ?case by simp
qed

lemmas wf_eval =
  wf_export_def wf_page_def wf_block_def wf_line_def wf_word_def is_dict_def field_def

lemmas flatten_eval =
  extract_text_from_doctr_export_def output_lines_of_def py_get_def py_iter_def py_join_def
  strip_def is_space_def

lemmas spec_eval =
  spec_flatten_def spec_output_lines_def page_entries_def block_entries_def line_entries_def
  line_values_def word_value_def items_of_def field_def

lemmas input_eval = two_pages_def sparse_export_def one_line_page_def word_of_def

text \<open>
  C1, as stated: the flattener returns the string of the reference definition that visits
  pages, blocks, lines and words in order, joins the non-empty word values of a line with
  a space, keeps a line that collected a value, joins the lines with a newline and strips
  the result. The statement fails on an export of two pages: the flattener puts an empty
  entry between the pages, which the reference definition of the claim does not have.
\<close>

theorem flatten_unseparated_counterexample:
  "extract_text_from_doctr_export two_pages \<noteq> Inr (flatten_unseparated two_pages)"
  by (simp add: flatten_eval flatten_unseparated_def spec_eval input_eval)

text \<open>
  C1, amended: for every export of the shape of section 3, the flattener returns the
  string of the reference definition in which, besides, one empty string follows the
  entries of every page but the last.
\<close>

theorem flatten_refines_spec:
  assumes "wf_export e"
  shows "extract_text_from_doctr_export e = Inr (spec_flatten e)"
  using output_lines_of_wf [OF assms]
  by (simp add: extract_text_from_doctr_export_def spec_flatten_def)

theorem flatten_refines_spec_witness:
  "wf_export two_pages \<and>
   extract_text_from_doctr_export two_pages = Inr (''A B'' @ [CHR 0x0A, CHR 0x0A] @ ''C'')"
proof -
  have wf: "wf_export two_pages" by (simp add: wf_eval input_eval)
  have "spec_flatten two_pages = ''A B'' @ [CHR 0x0A, CHR 0x0A] @ ''C''"
    by (simp add: spec_eval strip_def is_space_def input_eval)
  with wf flatten_refines_spec [OF wf] show ?thesis by simp
qed

text \<open>
  C6: on an export in which any of the keys \<^verbatim>\<open>"pages"\<close>, \<^verbatim>\<open>"blocks"\<close>, \<^verbatim>\<open>"lines"\<close>,
  \<^verbatim>\<open>"words"\<close> and \<^verbatim>\<open>"value"\<close> may be absent at any level, the flattener raises no error:
  it returns a string.
\<close>

theorem flatten_never_raises:
  assumes "wf_export e"
  shows "\<exists>s. extract_text_from_doctr_export e = Inr s"
  using output_lines_of_wf [OF assms]
  by (simp add: extract_text_from_doctr_export_def)

theorem flatten_never_raises_witness:
  "wf_export sparse_export \<and> (\<exists>s. extract_text_from_doctr_export sparse_export = Inr s)"
proof -
  have wf: "wf_export sparse_export" by (simp add: wf_eval input_eval)
  with flatten_never_raises [OF wf] show ?thesis by simp
qed

text \<open>
  C7: the list of output lines holds the entries of the pages in order with exactly one
  empty string after every page that is not the last, whether or not the page gave a text
  line. The empty entries of the list are these separators: an input of \<open>n\<close> pages has
  \<open>n - 1\<close> of them when \<open>n\<close> is positive, and none when there is no page.
\<close>

theorem page_separators:
  assumes "wf_export e"
  shows "output_lines_of e = Inr (separated (map page_entries (items_of e ''pages''))) \<and>
    int (length (filter (\<lambda>l. l = [])
           (separated (map page_entries (items_of e ''pages''))))) =
      (if items_of e ''pages'' = [] then 0 else int (length (items_of e ''pages'')) - 1)"
proof -
  have "int (length (filter (\<lambda>l. l = [])
           (separated (map page_entries (items_of e ''pages''))))) =
      (if map page_entries (items_of e ''pages'') = [] then 0
       else int (length (map page_entries (items_of e ''pages''))) - 1)"
    by (rule separated_blank_count) (auto simp: page_entries_nonempty)
  with output_lines_of_wf [OF assms] show ?thesis
    by (simp add: spec_output_lines_def)
qed

theorem page_separators_witness:
  "wf_export sparse_export \<and>
   output_lines_of sparse_export = Inr ['''', '''', ''x''] \<and>
   length (items_of sparse_export ''pages'') = 3"
proof -
  have wf: "wf_export sparse_export" by (simp add: wf_eval input_eval)
  have "separated (map page_entries (items_of sparse_export ''pages'')) = ['''', '''', ''x'']"
    by (simp add: spec_eval input_eval)
  moreover have "length (items_of sparse_export ''pages'') = 3"
    by (simp add: items_of_def field_def input_eval)
  ultimately show ?thesis using wf page_separators [OF wf] by simp
qed

text \<open>
  The shape of section 3 is needed: a key that is present with a value of another type,
  here \<^verbatim>\<open>"blocks"\<close> holding \<^verbatim>\<open>None\<close>, makes the loop over it raise.
\<close>

lemma blocks_none_raises:
  "extract_text_from_doctr_export (PDict [(''pages'', PList [PDict [(''blocks'', PNone)]])])
   = Inl TypeError"
  by (simp add: flatten_eval)

text \<open>
  On an export of at most one page no separator is written, and the two reference
  definitions agree; the example of section 8 of the specification is such an export.
\<close>

lemma single_page_unseparated:
  assumes "length (items_of e ''pages'') \<le> 1"
  shows "spec_flatten e = flatten_unseparated e"
proof (cases "items_of e ''pages''")
  case Nil
  then show ?thesis
    by (simp add: spec_flatten_def spec_output_lines_def flatten_unseparated_def)
next
  case (Cons p ps)
  with assms have "ps = []" by simp
  with Cons show ?thesis
    by (simp add: spec_flatten_def spec_output_lines_def flatten_unseparated_def)
qed

lemma hello_world:
  "extract_text_from_doctr_export
     (PDict [(''pages'', PList [PDict [(''blocks'', PList [PDict [(''lines'', PList
        [PDict [(''words'', PList
           [PDict [(''value'', PStr ''Hello'')], PDict [(''value'', PStr ''World'')]])]])]])]])])
   = Inr ''Hello World''"
  by (simp add: flatten_eval)

section \<open>Properties of the path resolver\<close>

lemma Path_empty: "Path [] = \<lparr>path_root = [], path_tail = []\<rparr>"
  by (simp add: Path_def)

lemma joinpath_empty: "joinpath d (Path []) = d"
  by (simp add: joinpath_def is_absolute_def Path_empty)

lemma Path_tail_clean: "[] \<notin> set (path_tail (Path s)) \<and> ''.'' \<notin> set (path_tail (Path s))"
  by (simp add: Path_def)

lemma collapse_no_dotdot: "''..'' \<notin> set done \<Longrightarrow> ''..'' \<notin> set (collapse done xs)"
proof (induction xs arbitrary: "done")
  case Nil
  then show ?case by simp
next
  case (Cons x xs)
  show ?case
  proof (cases "x = ''..''")
    case True
    from Cons.prems have "''..'' \<notin> set (butlast done)"
      by (auto dest: in_set_butlastD)
    with True Cons.IH show ?thesis by simp
  next
    case False
    with Cons.prems have "''..'' \<notin> set (done @ [x])" by simp
    with False Cons.IH show ?thesis by simp
  qed
qed

lemma normalize_no_dotdot: "''..'' \<notin> set (path_tail (normalize_path p))"
  by (simp add: normalize_path_def collapse_no_dotdot)

lemmas path_eval =
  resolve_input_path_def Path_def is_absolute_def joinpath_def normalize_path_def plain_host_def
  home_host_def str_path_def parent_def

text \<open>
  C2, as stated: for an absolute path string the resolver returns the path normalised, the
  segments \<^verbatim>\<open>..\<close> collapsed among the rest. The statement fails at \<^verbatim>\<open>/a/../b\<close>: the
  resolver returns the path with its segment \<^verbatim>\<open>..\<close>, where both the normalisation of the
  specification and \<^verbatim>\<open>Path.resolve()\<close> on a machine without symbolic links give \<^verbatim>\<open>/b\<close>.
\<close>

theorem absolute_not_normalized_counterexample:
  "resolve_input_path home_host ''/a/../b'' \<noteq> Inr (normalize_path (Path ''/a/../b'')) \<and>
   resolve_input_path home_host ''/a/../b'' \<noteq> resolve home_host (Path ''/a/../b'')"
  by (simp add: path_eval)

text \<open>
  C2, amended: for every string that denotes an absolute path the resolver returns the
  path as \<^verbatim>\<open>Path\<close> parses it, on every machine: the redundant separators and the segments
  \<^verbatim>\<open>.\<close> are collapsed, and nothing else is done to it.
\<close>

theorem resolve_absolute:
  assumes "is_absolute (Path s)"
  shows "resolve_input_path h s = Inr (Path s) \<and>
    [] \<notin> set (path_tail (Path s)) \<and>
    ''.'' \<notin> set (path_tail (Path s))"
proof -
  from assms have "resolve_input_path h s = Inr (Path s)"
    by (simp add: resolve_input_path_def)
  with Path_tail_clean [of s] show ?thesis by simp
qed

theorem resolve_absolute_witness:
  "is_absolute (Path ''/a//./../b'') \<and>
   resolve_input_path home_host ''/a//./../b'' =
     Inr \<lparr>path_root = ''/'', path_tail = [''a'', ''..'', ''b'']\<rparr>"
proof -
  have a: "is_absolute (Path ''/a//./../b'')" by (simp add: path_eval)
  have "Path ''/a//./../b'' = \<lparr>path_root = ''/'', path_tail = [''a'', ''..'', ''b'']\<rparr>"
    by (simp add: Path_def)
  with a resolve_absolute [OF a, of home_host] show ?thesis by simp
qed

text \<open>
  C3: for every string \<open>s\<close> that denotes a relative path and every machine, the resolver
  returns what \<^verbatim>\<open>Path.resolve()\<close> gives for the working directory joined with the path
  (and raises where \<^verbatim>\<open>Path.cwd()\<close> or \<^verbatim>\<open>Path.resolve()\<close> does). On a machine without
  symbolic links and with working directory \<open>d\<close> this is the normalisation of \<open>d / s\<close>.
\<close>

theorem resolve_relative:
  assumes "\<not> is_absolute (Path s)"
  shows "resolve_input_path h s =
      (case cwd h of Inl e \<Rightarrow> Inl e | Inr d' \<Rightarrow> resolve h (joinpath d' (Path s))) \<and>
    resolve_input_path (plain_host d) s = Inr (normalize_path (joinpath d (Path s)))"
  using assms by (simp add: resolve_input_path_def plain_host_def)

theorem resolve_relative_witness:
  "\<not> is_absolute (Path ''../x/./y'') \<and>
   resolve_input_path home_host ''../x/./y'' = Inr (Path ''/home/x/y'')"
proof -
  have r: "\<not> is_absolute (Path ''../x/./y'')" by (simp add: path_eval)
  have "normalize_path (joinpath (Path ''/home/u'') (Path ''../x/./y'')) = Path ''/home/x/y''"
    by (simp add: path_eval)
  moreover from resolve_relative [OF r, of home_host "Path ''/home/u''"]
  have "resolve_input_path (plain_host (Path ''/home/u'')) ''../x/./y'' =
      Inr (normalize_path (joinpath (Path ''/home/u'') (Path ''../x/./y'')))"
    by blast
  ultimately show ?thesis using r by (simp add: home_host_def)
qed

text \<open>
  C9: the empty string is a relative path without segments; joined to the working
  directory it gives the working directory, and the resolver returns what
  \<^verbatim>\<open>Path.resolve()\<close> gives for it. On a machine without symbolic links whose working
  directory \<open>d\<close> is absolute, the result is the normalisation of \<open>d\<close>: an absolute path
  without a segment \<^verbatim>\<open>..\<close>.
\<close>

theorem resolve_empty:
  "\<not> is_absolute (Path []) \<and>
   joinpath d (Path []) = d \<and>
   resolve_input_path h [] = (case cwd h of Inl e \<Rightarrow> Inl e | Inr d' \<Rightarrow> resolve h d') \<and>
   (is_absolute d \<longrightarrow>
      resolve_input_path (plain_host d) [] = Inr (normalize_path d) \<and>
      is_absolute (normalize_path d) \<and>
      ''..'' \<notin> set (path_tail (normalize_path d)))"
proof -
  have rel: "\<not> is_absolute (Path [])" by (simp add: is_absolute_def Path_empty)
  then have eq: "resolve_input_path h' [] =
      (case cwd h' of Inl e \<Rightarrow> Inl e | Inr d' \<Rightarrow> resolve h' d')" for h'
    by (simp add: resolve_input_path_def joinpath_empty cong: sum.case_cong)
  have "resolve_input_path (plain_host d) [] = Inr (normalize_path d)"
    by (simp add: eq plain_host_def)
  moreover have "is_absolute (normalize_path d)" if "is_absolute d"
    using that by (simp add: is_absolute_def normalize_path_def)
  ultimately show ?thesis
    using rel eq [of h] by (simp add: joinpath_empty normalize_no_dotdot)
qed

theorem resolve_empty_witness:
  "is_absolute (Path ''/home/u'') \<and> resolve_input_path home_host [] = Inr (Path ''/home/u'')"
proof -
  have a: "is_absolute (Path ''/home/u'')" by (simp add: path_eval)
  have n: "normalize_path (Path ''/home/u'') = Path ''/home/u''" by (simp add: path_eval)
  from a resolve_empty [of "Path ''/home/u''" home_host]
  have "resolve_input_path (plain_host (Path ''/home/u'')) [] =
      Inr (normalize_path (Path ''/home/u''))"
    by blast
  with a n show ?thesis by (simp add: home_host_def)
qed

section \<open>Properties of the command line driver\<close>

lemma ocr_step_events: "list_all is_ocr_call (fst (ocr_step env a p))"
  by (simp add: ocr_step_def Let_def split: sum.splits)

lemma json_step_default: "json_out a = [] \<Longrightarrow> json_step env a x = ([], None)"
  by (simp add: json_step_def)

lemma text_step_events: "list_all (\<lambda>ev. \<not> is_fs_write ev) (fst (text_step env a x))"
  by (simp add: text_step_def split: sum.splits option.splits)

lemma ocr_call_not_fs_write: "is_ocr_call ev \<Longrightarrow> \<not> is_fs_write ev"
  by (cases ev) simp_all

lemma report_trace:
  "list_all P evs \<Longrightarrow> P (Stderr msg) \<Longrightarrow> list_all P (trace (report env evs msg code))"
  by (simp add: report_def split: option.splits)

lemma try_body_no_json:
  assumes "json_out a = []"
  shows "list_all (\<lambda>ev. \<not> is_fs_write ev) (fst (try_body env a p))"
proof (cases "ocr_step env a p")
  case (Pair ev1 r)
  from ocr_step_events [of env a p] Pair have "list_all is_ocr_call ev1" by simp
  then have ev1: "list_all (\<lambda>ev. \<not> is_fs_write ev) ev1"
    by (simp add: list_all_iff ocr_call_not_fs_write)
  show ?thesis
  proof (cases r)
    case (Inl e)
    with Pair ev1 show ?thesis by (simp add: try_body_def)
  next
    case (Inr x)
    obtain ev3 r3 where t: "text_step env a x = (ev3, r3)" by (cases "text_step env a x")
    with text_step_events [of env a x] have "list_all (\<lambda>ev. \<not> is_fs_write ev) ev3" by simp
    with Pair Inr ev1 t show ?thesis
      by (simp add: try_body_def json_step_default [OF assms])
  qed
qed

lemma main_no_json:
  assumes "json_out (parse_args c) = []"
  shows "list_all (\<lambda>ev. \<not> is_fs_write ev) (trace (main env c))"
proof (cases "resolve_input_path (os env) (image_path (parse_args c))")
  case (Inl e)
  then show ?thesis by (simp add: main_def)
next
  case (Inr p)
  obtain evs r where b: "try_body env (parse_args c) p = (evs, r)"
    by (cases "try_body env (parse_args c) p")
  with try_body_no_json [OF assms, of env p]
  have "list_all (\<lambda>ev. \<not> is_fs_write ev) evs" by simp
  with Inr b show ?thesis
    by (simp add: main_def report_trace split: sum.splits option.splits)
qed











lemmas main_eval =
  main_def report_def path_exists_def path_is_file_def try_body_def ocr_step_def
  json_step_def text_step_def parse_args_def stub_env_def stub_stat_def stub_cli_def
  failing_env_def ascii_env_def Let_def







text \<open>
  C10: a run whose \<^verbatim>\<open>--json-out\<close> is the empty string is the run without the option, on
  every machine: the same exit code and the same lines and calls in the same order. It
  creates no directory and writes no file.
\<close>

theorem json_out_empty_is_default:
  "main env (c\<lparr>cli_json_out := Some []\<rparr>) = main env (c\<lparr>cli_json_out := None\<rparr>) \<and>
   list_all (\<lambda>ev. \<not> is_fs_write ev) (trace (main env (c\<lparr>cli_json_out := Some []\<rparr>)))"
proof -
  have "parse_args (c\<lparr>cli_json_out := Some []\<rparr>) = parse_args (c\<lparr>cli_json_out := None\<rparr>)"
    by (simp add: parse_args_def)
  then have "main env (c\<lparr>cli_json_out := Some []\<rparr>) = main env (c\<lparr>cli_json_out := None\<rparr>)"
    by (simp add: main_def)
  moreover have "json_out (parse_args (c\<lparr>cli_json_out := Some []\<rparr>)) = []"
    by (simp add: parse_args_def)
  then have "list_all (\<lambda>ev. \<not> is_fs_write ev) (trace (main env (c\<lparr>cli_json_out := Some []\<rparr>)))"
    by (rule main_no_json)
  ultimately show ?thesis by simp
qed

theorem json_out_empty_is_default_witness:
  "main stub_env (stub_cli ''a.png'' (Some [])) = main stub_env (stub_cli ''a.png'' None) \<and>
   trace (main stub_env (stub_cli ''a.png'' (Some []))) =
     [Call_from_images ''/home/u/a.png'',
      Call_ocr_predictor ''db_resnet50'' ''crnn_vgg16_bn'' True,
      Call_model, Call_export, Stdout (''A B'' @ [CHR 0x0A, CHR 0x0A] @ ''C'')]"
proof -
  have "(stub_cli ''a.png'' None)\<lparr>cli_json_out := Some []\<rparr> = stub_cli ''a.png'' (Some [])"
    and "(stub_cli ''a.png'' None)\<lparr>cli_json_out := None\<rparr> = stub_cli ''a.png'' None"
    by (simp_all add: stub_cli_def)
  with json_out_empty_is_default [of stub_env "stub_cli ''a.png'' None"]
  have "main stub_env (stub_cli ''a.png'' (Some [])) = main stub_env (stub_cli ''a.png'' None)"
    by simp
  moreover have "trace (main stub_env (stub_cli ''a.png'' None)) =
     [Call_from_images ''/home/u/a.png'',
      Call_ocr_predictor ''db_resnet50'' ''crnn_vgg16_bn'' True,
      Call_model, Call_export, Stdout (''A B'' @ [CHR 0x0A, CHR 0x0A] @ ''C'')]"
    by (simp add: main_eval path_eval flatten_eval input_eval)
  ultimately show ?thesis by simp
qed

section \<open>Reading back what the writer has written\<close>


lemma of_char_digit_char: "d < 10 \<Longrightarrow> (of_char (digit_char d) :: nat) = 48 + d"
  by (simp add: digit_char_def)

lemma is_digit_digit_char: "d < 10 \<Longrightarrow> is_digit (digit_char d)"
  by (simp add: is_digit_def of_char_digit_char)

lemma digit_val_digit_char: "d < 10 \<Longrightarrow> digit_val (digit_char d) = d"
  by (simp add: digit_val_def of_char_digit_char)

lemma char_eq_of_char: "(c = d) = ((of_char c :: nat) = of_char d)"
  by auto

lemma char_of_eq: "n < 256 \<Longrightarrow> (char_of n = c) = (n = (of_char c :: nat))"
  by (auto simp: char_of_eq_iff take_bit_eq_mod)

lemma digit_char_eq_0: "d < 10 \<Longrightarrow> (digit_char d = CHR ''0'') = (d = 0)"
  by (simp add: char_eq_of_char [of "digit_char d"] of_char_digit_char)

lemma is_digit_not_minus: "is_digit c \<Longrightarrow> c \<noteq> CHR ''-''"
  by (auto simp: is_digit_def)

lemma show_nat_nonempty: "show_nat n \<noteq> []"
  by (subst show_nat.simps) simp

lemma show_nat_digits: "c \<in> set (show_nat n) \<Longrightarrow> is_digit c"
proof (induction n arbitrary: c rule: show_nat.induct)
  case (1 n)
  show ?case
  proof (cases "n < 10")
    case True
    with "1.prems" show ?thesis by (simp add: show_nat.simps [of n] is_digit_digit_char)
  next
    case False
    with "1.prems" have "c \<in> set (show_nat (n div 10)) \<or> c = digit_char (n mod 10)"
      by (auto simp: show_nat.simps [of n])
    with False "1.IH" show ?thesis by (auto simp: is_digit_digit_char)
  qed
qed

lemma read_nat_snoc: "read_nat (ds @ [c]) = 10 * read_nat ds + digit_val c"
  by (simp add: read_nat_def)

lemma read_show_nat: "read_nat (show_nat n) = n"
proof (induction n rule: show_nat.induct)
  case (1 n)
  show ?case
  proof (cases "n < 10")
    case True
    then show ?thesis by (simp add: show_nat.simps [of n] read_nat_def digit_val_digit_char)
  next
    case False
    with "1.IH" show ?thesis
      by (simp add: show_nat.simps [of n] read_nat_snoc digit_val_digit_char)
  qed
qed

lemma hd_show_nat: "hd (show_nat n) = CHR ''0'' \<Longrightarrow> n = 0"
proof (induction n rule: show_nat.induct)
  case (1 n)
  show ?case
  proof (cases "n < 10")
    case True
    with "1.prems" show ?thesis by (simp add: show_nat.simps [of n] digit_char_eq_0)
  next
    case False
    with "1.prems" have "hd (show_nat (n div 10)) = CHR ''0''"
      by (simp add: show_nat.simps [of n] show_nat_nonempty)
    with False "1.IH" have "n div 10 = 0" by simp
    with False show ?thesis by simp
  qed
qed

lemma show_nat_0: "show_nat 0 = ''0''"
  by (simp add: show_nat.simps [of 0] digit_char_def char_of_eq)

lemma takeWhile_digits_append:
  assumes "\<And>c. c \<in> set ds \<Longrightarrow> is_digit c" and "rest = [] \<or> \<not> is_digit (hd rest)"
  shows "takeWhile is_digit (ds @ rest) = ds" and "dropWhile is_digit (ds @ rest) = rest"
proof -
  from assms(2) have "takeWhile is_digit rest = []" "dropWhile is_digit rest = rest"
    by (cases rest; simp)+
  with assms(1) show "takeWhile is_digit (ds @ rest) = ds" "dropWhile is_digit (ds @ rest) = rest"
    by (simp_all add: takeWhile_append2 dropWhile_append2)
qed

lemma lex_nat_show_nat:
  assumes "rest = [] \<or> \<not> is_digit (hd rest)"
  shows "lex_nat (show_nat n @ rest) = Some (show_nat n, rest)"
proof (cases "n = 0")
  case True
  then show ?thesis by (simp add: show_nat_0 lex_nat_def)
next
  case False
  obtain c ds where s: "show_nat n = c # ds" using show_nat_nonempty [of n] by (cases "show_nat n") auto
  with hd_show_nat [of n] False have c0: "c \<noteq> CHR ''0''" by auto
  from s show_nat_digits [of _ n] have d: "is_digit c" "\<And>x. x \<in> set ds \<Longrightarrow> is_digit x" by auto
  from takeWhile_digits_append [OF d(2) assms] s c0 d(1) show ?thesis
    by (simp add: lex_nat_def)
qed


lemma value_end_cases:
  assumes "value_end rest"
  obtains "rest = []" | t where "rest = CHR '','' # t" | t where "rest = CHR 0x0A # t"
  using assms by (auto simp: value_end_def split: list.splits)

lemma value_end_no_digit: "value_end rest \<Longrightarrow> rest = [] \<or> \<not> is_digit (hd rest)"
  by (erule value_end_cases) (simp_all add: is_digit_def)

lemma span_digits_append:
  assumes "value_end rest"
  shows "takeWhile is_digit (s @ rest) = takeWhile is_digit s"
    and "dropWhile is_digit (s @ rest) = dropWhile is_digit s @ rest"
proof -
  from value_end_no_digit [OF assms]
  have "takeWhile is_digit rest = []" "dropWhile is_digit rest = rest"
    by (cases rest; simp)+
  then show "takeWhile is_digit (s @ rest) = takeWhile is_digit s"
    and "dropWhile is_digit (s @ rest) = dropWhile is_digit s @ rest"
    by (induction s) simp_all
qed

lemma lex_nat_append:
  assumes "value_end rest"
  shows "lex_nat (s @ rest) = map_option (\<lambda>(t, r). (t, r @ rest)) (lex_nat s)"
proof (cases s)
  case Nil
  from assms show ?thesis
    by (rule value_end_cases) (simp_all add: Nil lex_nat_def is_digit_def)
next
  case (Cons c r)
  then show ?thesis by (simp add: lex_nat_def span_digits_append [OF assms])
qed

lemma lex_int_append:
  assumes "value_end rest"
  shows "lex_int (s @ rest) = map_option (\<lambda>(t, r). (t, r @ rest)) (lex_int s)"
proof (cases s)
  case Nil
  from assms show ?thesis
    by (rule value_end_cases) (simp_all add: Nil lex_int_def lex_nat_def is_digit_def)
next
  case (Cons c r)
  show ?thesis
  proof (cases "c = CHR ''-''")
    case True
    with Cons show ?thesis
      by (simp add: lex_int_def lex_nat_append [OF assms] split: option.splits)
  next
    case False
    with Cons lex_nat_append [OF assms, of s] show ?thesis by (simp add: lex_int_def)
  qed
qed

lemma lex_frac_append:
  assumes "value_end rest"
  shows "lex_frac (s @ rest) = (fst (lex_frac s), snd (lex_frac s) @ rest)"
proof (cases s)
  case Nil
  from assms show ?thesis
    by (rule value_end_cases) (simp_all add: Nil lex_frac_def)
next
  case (Cons c r)
  then show ?thesis by (simp add: lex_frac_def span_digits_append [OF assms])
qed

lemma lex_sign_append:
  assumes "value_end rest"
  shows "lex_sign (s @ rest) = (fst (lex_sign s), snd (lex_sign s) @ rest)"
proof (cases s)
  case Nil
  from assms show ?thesis
    by (rule value_end_cases) (simp_all add: Nil lex_sign_def)
next
  case (Cons c r)
  then show ?thesis by (simp add: lex_sign_def)
qed

lemma lex_exp_append:
  assumes "value_end rest"
  shows "lex_exp (s @ rest) = (fst (lex_exp s), snd (lex_exp s) @ rest)"
proof (cases s)
  case Nil
  from assms show ?thesis
    by (rule value_end_cases) (simp_all add: Nil lex_exp_def)
next
  case (Cons c r)
  then show ?thesis
    by (simp add: lex_exp_def lex_sign_append [OF assms] span_digits_append [OF assms])
qed

lemma lex_number_append:
  assumes "value_end rest"
  shows "lex_number (s @ rest) =
    map_option (\<lambda>(i, f, e, r). (i, f, e, r @ rest)) (lex_number s)"
  by (simp add: lex_number_def lex_int_append [OF assms] lex_frac_append [OF assms]
      lex_exp_append [OF assms] case_prod_beta split: option.splits)

lemma lex_nat_parts: "lex_nat s = Some (t, r) \<Longrightarrow> s = t @ r"
  by (auto simp: lex_nat_def split: list.splits if_splits)

lemma lex_int_parts: "lex_int s = Some (t, r) \<Longrightarrow> s = t @ r"
  by (auto simp: lex_int_def split: list.splits if_splits option.splits dest: lex_nat_parts)

lemma lex_frac_parts: "fst (lex_frac s) @ snd (lex_frac s) = s"
  by (simp add: lex_frac_def split: list.splits)

lemma lex_sign_parts: "fst (lex_sign s) @ snd (lex_sign s) = s"
  by (simp add: lex_sign_def split: list.splits)

lemma lex_exp_parts: "fst (lex_exp s) @ snd (lex_exp s) = s"
proof (cases s)
  case Nil
  then show ?thesis by (simp add: lex_exp_def)
next
  case (Cons c r)
  have "fst (lex_sign r) @ takeWhile is_digit (snd (lex_sign r)) @
      dropWhile is_digit (snd (lex_sign r)) = r"
    by (simp add: lex_sign_parts)
  with Cons show ?thesis by (simp add: lex_exp_def)
qed

lemma lex_number_parts:
  assumes "lex_number s = Some (i, f, e, r)"
  shows "s = i @ f @ e @ r"
proof (cases "lex_int s")
  case None
  with assms show ?thesis by (simp add: lex_number_def)
next
  case (Some p)
  obtain i' r1 where p: "p = (i', r1)" by (cases p)
  with Some assms have i: "i' = i" and f: "f = fst (lex_frac r1)"
    and e: "e = fst (lex_exp (snd (lex_frac r1)))"
    and r: "r = snd (lex_exp (snd (lex_frac r1)))"
    by (simp_all add: lex_number_def)
  from Some p i have "s = i @ r1" by (simp add: lex_int_parts)
  also have "r1 = f @ snd (lex_frac r1)" by (simp add: f lex_frac_parts)
  also have "snd (lex_frac r1) = e @ r" by (simp add: e r lex_exp_parts)
  finally show ?thesis by simp
qed

lemma lex_nat_head: "lex_nat s = Some (t, r) \<Longrightarrow> \<exists>c u. s = c # u \<and> is_digit c"
  by (auto simp: lex_nat_def is_digit_def split: list.splits if_splits)

lemma lex_int_head:
  "lex_int s = Some (t, r) \<Longrightarrow> \<exists>c u. s = c # u \<and> (is_digit c \<or> c = CHR ''-'')"
  by (auto simp: lex_int_def split: list.splits if_splits option.splits dest: lex_nat_head)

lemma show_int_head: "\<exists>c u. show_int i = c # u \<and> (is_digit c \<or> c = CHR ''-'')"
proof (cases "i < 0")
  case True
  then show ?thesis by (simp add: show_int_def)
next
  case False
  obtain c ds where s: "show_nat (nat i) = c # ds"
    using show_nat_nonempty [of "nat i"] by (cases "show_nat (nat i)") auto
  with show_nat_digits [of c "nat i"] False show ?thesis by (simp add: show_int_def)
qed

lemma lex_number_show_int:
  assumes "value_end rest"
  shows "lex_number (show_int i @ rest) = Some (show_int i, [], [], rest)"
proof -
  have n: "lex_nat (show_nat n) = Some (show_nat n, [])" for n
    using lex_nat_show_nat [of "[]" n] by simp
  have "lex_int (show_int i) = Some (show_int i, [])"
  proof (cases "i < 0")
    case True
    then show ?thesis by (simp add: show_int_def lex_int_def n)
  next
    case False
    obtain c ds where s: "show_nat (nat i) = c # ds"
      using show_nat_nonempty [of "nat i"] by (cases "show_nat (nat i)") auto
    with show_nat_digits [of c "nat i"] have "c \<noteq> CHR ''-''" by (auto dest: is_digit_not_minus)
    with s n [of "nat i"] False show ?thesis by (simp add: show_int_def lex_int_def)
  qed
  then have "lex_number (show_int i) = Some (show_int i, [], [], [])"
    by (simp add: lex_number_def lex_frac_def lex_exp_def)
  with lex_number_append [OF assms, of "show_int i"] show ?thesis by simp
qed

lemma read_show_int: "read_int (show_int i) = i"
proof (cases "i < 0")
  case True
  then show ?thesis by (simp add: show_int_def read_int_def read_show_nat)
next
  case False
  obtain c ds where s: "show_nat (nat i) = c # ds"
    using show_nat_nonempty [of "nat i"] by (cases "show_nat (nat i)") auto
  with show_nat_digits [of c "nat i"] have "c \<noteq> CHR ''-''" by (auto dest: is_digit_not_minus)
  with s False read_show_nat [of "nat i"] show ?thesis by (simp add: show_int_def read_int_def)
qed

lemma scan_number_show_int:
  "value_end rest \<Longrightarrow> scan_number fp (show_int i @ rest) = Some (PInt i, rest)"
  by (simp add: scan_number_def lex_number_show_int read_show_int)

lemma scan_number_float:
  assumes "float_round_trip fr fp r" and "value_end rest"
  shows "scan_number fp (fr r @ rest) = Some (PFloat r, rest)"
proof (cases "lex_number (fr r)")
  case None
  with assms(1) show ?thesis by (simp add: float_round_trip_def)
next
  case (Some q)
  obtain i f e t where q: "q = (i, f, e, t)" by (cases q)
  with Some assms(1) have t: "t = []" and fe: "f \<noteq> [] \<or> e \<noteq> []" and rt: "fp (fr r) = r"
    by (simp_all add: float_round_trip_def)
  from lex_number_parts [of "fr r" i f e t] Some q t have whole: "fr r = i @ f @ e" by simp
  from lex_number_append [OF assms(2), of "fr r"] Some q t
  have "lex_number (fr r @ rest) = Some (i, f, e, rest)" by simp
  with fe rt whole show ?thesis by (auto simp: scan_number_def)
qed

lemma float_head:
  assumes "float_round_trip fr fp r"
  shows "\<exists>c u. fr r = c # u \<and> (is_digit c \<or> c = CHR ''-'')"
proof (cases "lex_int (fr r)")
  case None
  with assms show ?thesis by (simp add: float_round_trip_def lex_number_def)
next
  case (Some p)
  obtain t r1 where "p = (t, r1)" by (cases p)
  with Some lex_int_head [of "fr r" t r1] show ?thesis by simp
qed

text \<open>a text that starts with a digit or a minus sign is read as a number\<close>

lemma parse_value_number:
  assumes "is_digit c \<or> c = CHR ''-''" and "scan_number fp (c # u) = Some res"
  shows "parse_value fp (Suc n) (c # u) = Some res"
proof -
  from assms(1) have "c \<noteq> CHR 0x22" "c \<noteq> CHR ''{''" "c \<noteq> CHR ''[''"
    "c \<noteq> CHR ''n''" "c \<noteq> CHR ''t''" "c \<noteq> CHR ''f''"
    by (auto simp: is_digit_def)
  with assms(2) show ?thesis by (simp add: starts_with_def)
qed

lemma hex_val_hex_digit: "d < 16 \<Longrightarrow> hex_val (hex_digit d) = Some d"
  by (auto simp: hex_val_def hex_digit_def Let_def)

lemma hex_val_0: "hex_val (CHR ''0'') = Some 0"
  by (simp add: hex_val_def)

lemma hex4_control:
  assumes "n < 256"
  shows "hex4 (CHR ''0'') (CHR ''0'') (hex_digit (n div 16)) (hex_digit (n mod 16)) = Some n"
proof -
  from assms have "n div 16 < 16" by simp
  then show ?thesis by (simp add: hex4_def hex_val_0 hex_val_hex_digit)
qed

lemma scan_string_escape:
  "scan_string (escape_char c @ t) =
     (case scan_string t of None \<Rightarrow> None | Some (s, u) \<Rightarrow> Some (c # s, u))"
proof -
  have n: "(of_char c :: nat) < 256" by simp
  consider "c = CHR 0x22" | "c = CHR 0x5C" | "c = CHR 0x0A" | "c = CHR 0x0D" | "c = CHR 0x09"
    | "c = CHR 0x08" | "c = CHR 0x0C"
    | "c \<noteq> CHR 0x22" "c \<noteq> CHR 0x5C" "c \<noteq> CHR 0x0A" "c \<noteq> CHR 0x0D" "c \<noteq> CHR 0x09"
      "c \<noteq> CHR 0x08" "c \<noteq> CHR 0x0C" "(of_char c :: nat) < 32"
    | "c \<noteq> CHR 0x22" "c \<noteq> CHR 0x5C" "\<not> (of_char c :: nat) < 32"
    by (cases "(of_char c :: nat) < 32") auto
  then show ?thesis
  proof cases
    case 8
    then show ?thesis
      by (simp add: escape_char_def hex4_control [OF n] split: option.splits)
  next
    case 9
    then have "escape_char c = [c]" by (auto simp: escape_char_def)
    with 9 show ?thesis by simp
  qed (auto simp: escape_char_def unescape_def split: option.splits)
qed

lemma scan_string_encode:
  "scan_string (concat (map escape_char s) @ CHR 0x22 # rest) = Some (s, rest)"
  by (induction s) (simp_all add: scan_string_escape)

lemma encode_str_cons: "encode_str s = CHR 0x22 # concat (map escape_char s) @ [CHR 0x22]"
  by (simp add: encode_str_def)

lemma parse_value_str:
  "parse_value fp (Suc n) (encode_str s @ rest) = Some (PStr s, rest)"
  using scan_string_encode [of s rest] by (simp add: encode_str_def)

lemma skip_ws_nl_indent: "skip_ws (nl_indent k @ s) = skip_ws s"
proof -
  have "dropWhile is_ws (replicate m (CHR '' '') @ s) = dropWhile is_ws s" for m
    by (induction m) (simp_all add: is_ws_def)
  then show ?thesis by (simp add: skip_ws_def nl_indent_def is_ws_def)
qed

lemma skip_ws_id: "\<not> is_ws c \<Longrightarrow> skip_ws (c # t) = c # t"
  by (simp add: skip_ws_def)

lemma skip_ws_space: "skip_ws (CHR '' '' # s) = skip_ws s"
  by (simp add: skip_ws_def is_ws_def)

lemma is_digit_not_ws:
  "is_digit c \<or> c = CHR ''-'' \<Longrightarrow> \<not> is_ws c \<and> c \<noteq> CHR '']'' \<and> c \<noteq> CHR ''}''"
  by (auto simp: is_digit_def is_ws_def)

lemma value_end_sep: "value_end (CHR '','' # t)" "value_end (nl_indent k @ t)"
  by (simp_all add: value_end_def nl_indent_def)

text \<open>the first character of a printed value is neither white space nor a closing bracket\<close>

lemma encode_head:
  assumes "json_ok (float_round_trip fr fp) v"
  shows "\<exists>c t. encode fr lvl v = c # t \<and> \<not> is_ws c \<and> c \<noteq> CHR '']'' \<and> c \<noteq> CHR ''}''"
proof (cases v)
  case (PInt i)
  from show_int_head [of i] obtain c u where "show_int i = c # u" "is_digit c \<or> c = CHR ''-''"
    by blast
  with PInt is_digit_not_ws [of c] show ?thesis by simp
next
  case (PFloat r)
  with assms have "float_round_trip fr fp r" by simp
  from float_head [OF this] obtain c u where "fr r = c # u" "is_digit c \<or> c = CHR ''-''"
    by blast
  with PFloat is_digit_not_ws [of c] show ?thesis by simp
qed (simp_all add: is_ws_def encode_str_def)

lemma json_ok_itemsD: "json_ok_items P xs \<Longrightarrow> x \<in> set xs \<Longrightarrow> json_ok P x"
  by (induction xs) auto

lemma json_ok_membersD: "json_ok_members P kvs \<Longrightarrow> (k, v) \<in> set kvs \<Longrightarrow> json_ok P v"
  by (induction kvs) auto

lemma dict_set_fresh: "k \<notin> fst ` set d \<Longrightarrow> dict_set d k v = d @ [(k, v)]"
  by (induction d) auto

lemma dict_of_pairs_distinct:
  assumes "distinct (map fst ps)"
  shows "dict_of_pairs ps = ps"
proof -
  have "foldl (\<lambda>d kv. dict_set d (fst kv) (snd kv)) acc ps = acc @ ps"
    if "distinct (map fst (acc @ ps))" for acc
    using that
  proof (induction ps arbitrary: acc)
    case Nil
    show ?case by simp
  next
    case (Cons kv ps)
    from Cons.prems have "fst kv \<notin> fst ` set acc" by auto
    then have "dict_set acc (fst kv) (snd kv) = acc @ [kv]" by (simp add: dict_set_fresh)
    moreover from Cons.prems have "distinct (map fst ((acc @ [kv]) @ ps))" by simp
    ultimately show ?case using Cons.IH [of "acc @ [kv]"] by simp
  qed
  from this [of "[]"] assms show ?thesis by (simp add: dict_of_pairs_def)
qed

text \<open>
  The items of a list, read back after the opening bracket, provided each item is.
\<close>

lemma parse_items_encode:
  assumes "xs \<noteq> []"
    and "\<And>x n lvl rest. x \<in> set xs \<Longrightarrow> length (encode fr lvl x) \<le> n \<Longrightarrow> value_end rest \<Longrightarrow>
           parse_value fp n (encode fr lvl x @ rest) = Some (x, rest)"
    and "\<And>x lvl. x \<in> set xs \<Longrightarrow> \<exists>c t. encode fr lvl x = c # t \<and> \<not> is_ws c"
    and "length (encode_items fr lvl xs) < n"
  shows "parse_items fp n (encode_items fr lvl xs @ nl_indent k @ CHR '']'' # rest) = Some (xs, rest)"
  using assms
proof (induction xs arbitrary: n rule: list_nonempty_induct)
  case (single x)
  from single.prems(3) obtain m where n: "n = Suc m" and m: "length (encode fr lvl x) \<le> m"
    by (cases n) auto
  have "parse_value fp m (encode fr lvl x @ (nl_indent k @ CHR '']'' # rest)) =
      Some (x, nl_indent k @ CHR '']'' # rest)"
    by (rule single.prems(1)) (simp_all add: m value_end_sep)
  moreover have "skip_ws (nl_indent k @ CHR '']'' # rest) = CHR '']'' # rest"
    by (simp add: skip_ws_nl_indent skip_ws_id is_ws_def)
  ultimately show ?case by (simp add: n)
next
  case (cons x ys)
  then obtain y zs where ys: "ys = y # zs" by (cases ys) auto
  let ?tail = "encode_items fr lvl ys @ nl_indent k @ CHR '']'' # rest"
  from cons.prems(3) ys obtain m where n: "n = Suc m"
    and m: "length (encode fr lvl x) \<le> m" and m': "length (encode_items fr lvl ys) < m"
    by (cases n) (auto simp: nl_indent_def)
  have "parse_value fp m (encode fr lvl x @ (CHR '','' # nl_indent lvl @ ?tail)) =
      Some (x, CHR '','' # nl_indent lvl @ ?tail)"
    by (rule cons.prems(1)) (simp_all add: m value_end_sep)
  moreover have "skip_ws (CHR '','' # nl_indent lvl @ ?tail) = CHR '','' # nl_indent lvl @ ?tail"
    by (simp add: skip_ws_id is_ws_def)
  moreover from cons.prems(2) [of y lvl] ys obtain c t where "encode fr lvl y = c # t" "\<not> is_ws c"
    by auto
  then have "skip_ws (nl_indent lvl @ ?tail) = ?tail"
    by (cases zs) (simp_all add: ys skip_ws_nl_indent skip_ws_id)
  moreover have "parse_items fp m ?tail = Some (ys, rest)"
  proof (rule cons.IH)
    show "parse_value fp n' (encode fr lvl' z @ rest') = Some (z, rest')"
      if "z \<in> set ys" "length (encode fr lvl' z) \<le> n'" "value_end rest'" for z n' lvl' rest'
      using that by (simp add: cons.prems(1))
    show "\<exists>c t. encode fr lvl' z = c # t \<and> \<not> is_ws c" if "z \<in> set ys" for z lvl'
      by (rule cons.prems(2)) (simp add: that)
    show "length (encode_items fr lvl ys) < m" by (rule m')
  qed
  ultimately show ?case by (simp add: n ys)
qed

text \<open>
  The members of a dictionary, read back after the opening brace, provided each value is.
\<close>

lemma parse_member_step:
  assumes "parse_value fp m (encode fr lvl v @ after) = Some (v, after)"
    and "\<exists>c t. encode fr lvl v = c # t \<and> \<not> is_ws c"
  shows "parse_members fp (Suc m) (encode_str k @ '': '' @ encode fr lvl v @ after) =
    (case skip_ws after of
       [] \<Rightarrow> None
     | d # t3 \<Rightarrow>
         if d = CHR ''}'' then Some ([(k, v)], t3)
         else if d = CHR '','' then
           (case parse_members fp m (skip_ws t3) of
              None \<Rightarrow> None
            | Some (ps, t4) \<Rightarrow> Some ((k, v) # ps, t4))
         else None)"
proof -
  let ?x = "CHR '':'' # CHR '' '' # encode fr lvl v @ after"
  have a: "encode_str k @ '': '' @ encode fr lvl v @ after =
      CHR 0x22 # (concat (map escape_char k) @ CHR 0x22 # ?x)"
    by (simp add: encode_str_def)
  have b: "skip_ws ?x = ?x" by (simp add: skip_ws_id is_ws_def)
  from assms(2) obtain c t where "encode fr lvl v = c # t" "\<not> is_ws c" by blast
  then have c: "skip_ws (CHR '' '' # encode fr lvl v @ after) = encode fr lvl v @ after"
    by (simp add: skip_ws_space skip_ws_id)
  show ?thesis
    unfolding a
    by (simp only: parse_members.simps list.case scan_string_encode option.case prod.case b c
        assms(1)) simp
qed

lemma parse_members_encode:
  assumes "kvs \<noteq> []"
    and "\<And>k v n lvl rest. (k, v) \<in> set kvs \<Longrightarrow> length (encode fr lvl v) \<le> n \<Longrightarrow>
           value_end rest \<Longrightarrow> parse_value fp n (encode fr lvl v @ rest) = Some (v, rest)"
    and "\<And>k v lvl. (k, v) \<in> set kvs \<Longrightarrow> \<exists>c t. encode fr lvl v = c # t \<and> \<not> is_ws c"
    and "length (encode_members fr lvl kvs) < n"
  shows "parse_members fp n (encode_members fr lvl kvs @ nl_indent j @ CHR ''}'' # rest) =
    Some (kvs, rest)"
  using assms
proof (induction kvs arbitrary: n rule: list_nonempty_induct)
  case (single kv)
  obtain k v where kv: "kv = (k, v)" by (cases kv)
  let ?tail = "nl_indent j @ CHR ''}'' # rest"
  from single.prems(3) kv obtain m where n: "n = Suc m" and m: "length (encode fr lvl v) \<le> m"
    by (cases n) auto
  have p: "parse_value fp m (encode fr lvl v @ ?tail) = Some (v, ?tail)"
    by (rule single.prems(1) [of k]) (simp_all add: kv m value_end_sep)
  have h: "\<exists>c t. encode fr lvl v = c # t \<and> \<not> is_ws c"
    by (rule single.prems(2) [of k]) (simp add: kv)
  have "skip_ws ?tail = CHR ''}'' # rest"
    by (simp add: skip_ws_nl_indent skip_ws_id is_ws_def)
  with parse_member_step [OF p h, of k] show ?case by (simp add: n kv)
next
  case (cons kv ms)
  obtain k v where kv: "kv = (k, v)" by (cases kv)
  from cons.hyps obtain k' v' ms' where ms: "ms = (k', v') # ms'" by (cases ms) auto
  let ?tail = "encode_members fr lvl ms @ nl_indent j @ CHR ''}'' # rest"
  let ?next = "CHR '','' # nl_indent lvl @ ?tail"
  from cons.prems(3) kv ms obtain m where n: "n = Suc m"
    and m: "length (encode fr lvl v) \<le> m" and m': "length (encode_members fr lvl ms) < m"
    by (cases n) (auto simp: nl_indent_def)
  have p: "parse_value fp m (encode fr lvl v @ ?next) = Some (v, ?next)"
    by (rule cons.prems(1) [of k]) (simp_all add: kv m value_end_sep)
  have h: "\<exists>c t. encode fr lvl v = c # t \<and> \<not> is_ws c"
    by (rule cons.prems(2) [of k]) (simp add: kv)
  have s1: "skip_ws ?next = ?next" by (simp add: skip_ws_id is_ws_def)
  have s2: "skip_ws (nl_indent lvl @ ?tail) = ?tail"
    by (cases ms') (simp_all add: ms skip_ws_nl_indent skip_ws_id encode_str_def is_ws_def)
  have r: "parse_members fp m ?tail = Some (ms, rest)"
  proof (rule cons.IH)
    show "parse_value fp n' (encode fr lvl' z @ rest') = Some (z, rest')"
      if "(q, z) \<in> set ms" "length (encode fr lvl' z) \<le> n'" "value_end rest'"
      for q z n' lvl' rest'
      using that by (simp add: cons.prems(1) [of q])
    show "\<exists>c t. encode fr lvl' z = c # t \<and> \<not> is_ws c" if "(q, z) \<in> set ms" for q z lvl'
      by (rule cons.prems(2) [of q]) (simp add: that)
    show "length (encode_members fr lvl ms) < m" by (rule m')
  qed
  have "encode_members fr lvl (kv # ms) @ nl_indent j @ CHR ''}'' # rest =
      encode_str k @ '': '' @ encode fr lvl v @ ?next"
    by (simp add: kv ms)
  with parse_member_step [OF p h, of k] s1 s2 r show ?case by (simp add: n kv)
qed

lemma encode_nonempty:
  "json_ok (float_round_trip fr fp) v \<Longrightarrow> 0 < length (encode fr lvl v)"
  using encode_head [of fr fp v lvl] by auto

text \<open>Every value the writer prints is read back, whatever follows it.\<close>

lemma parse_value_encode:
  assumes "json_ok (float_round_trip fr fp) v"
    and "length (encode fr lvl v) \<le> n"
    and "value_end rest"
  shows "parse_value fp n (encode fr lvl v @ rest) = Some (v, rest)"
  using assms
proof (induction v arbitrary: n lvl rest)
  case PNone
  then obtain m where "n = Suc m" by (cases n) auto
  then show ?case by (simp add: starts_with_def)
next
  case (PBool b)
  then obtain m where "n = Suc m" by (cases n) (auto split: if_splits)
  then show ?case by (simp add: starts_with_def)
next
  case (PInt i)
  then obtain m where n: "n = Suc m"
    using encode_nonempty [of fr fp "PInt i" lvl] by (cases n) auto
  from show_int_head [of i] obtain c u where s: "show_int i = c # u"
    and c: "is_digit c \<or> c = CHR ''-''" by blast
  from scan_number_show_int [OF PInt.prems(3), of fp i] s
  have "scan_number fp (c # u @ rest) = Some (PInt i, rest)" by simp
  from parse_value_number [OF c this, of m] s n show ?case by simp
next
  case (PFloat r)
  then have f: "float_round_trip fr fp r" by simp
  from PFloat.prems obtain m where n: "n = Suc m"
    using encode_nonempty [of fr fp "PFloat r" lvl] by (cases n) auto
  from float_head [OF f] obtain c u where s: "fr r = c # u"
    and c: "is_digit c \<or> c = CHR ''-''" by blast
  from scan_number_float [OF f PFloat.prems(3)] s
  have "scan_number fp (c # u @ rest) = Some (PFloat r, rest)" by simp
  from parse_value_number [OF c this, of m] s n show ?case by simp
next
  case (PStr s)
  then obtain m where "n = Suc m" by (cases n) (auto simp: encode_str_def)
  then show ?case using parse_value_str [of fp m s rest] by simp
next
  case (PList xs)
  from PList.prems(2) obtain m where n: "n = Suc m" by (cases n) (auto split: if_splits)
  show ?case
  proof (cases "xs = []")
    case True
    then show ?thesis by (simp add: n skip_ws_id is_ws_def)
  next
    case False
    let ?items = "encode_items fr (Suc lvl) xs @ nl_indent lvl @ CHR '']'' # rest"
    from PList.prems(1) have ok: "json_ok (float_round_trip fr fp) x" if "x \<in> set xs" for x
      using that by (auto dest: json_ok_itemsD)
    from False obtain x ys where xs: "xs = x # ys" by (cases xs) auto
    from encode_head [OF ok, of x "Suc lvl"] xs obtain c t
      where h: "encode fr (Suc lvl) x = c # t" "\<not> is_ws c" "c \<noteq> CHR '']''" by auto
    then obtain t' where i: "?items = c # t'" by (cases ys) (simp_all add: xs)
    with h have sk: "skip_ws (nl_indent (Suc lvl) @ ?items) = c # t'"
      by (simp add: skip_ws_nl_indent skip_ws_id)
    have "parse_items fp m ?items = Some (xs, rest)"
    proof (rule parse_items_encode [OF False])
      show "parse_value fp n' (encode fr lvl' z @ rest') = Some (z, rest')"
        if "z \<in> set xs" "length (encode fr lvl' z) \<le> n'" "value_end rest'" for z n' lvl' rest'
        using that by (simp add: PList.IH ok)
      show "\<exists>c t. encode fr lvl' z = c # t \<and> \<not> is_ws c" if "z \<in> set xs" for z lvl'
        using encode_head [OF ok [OF that], of lvl'] by blast
      from PList.prems(2) False n show "length (encode_items fr (Suc lvl) xs) < m"
        by (simp add: nl_indent_def)
    qed
    with i have "parse_items fp m (c # t') = Some (xs, rest)" by simp
    with False sk h(3) show ?thesis by (simp add: n)
  qed
next
  case (PDict kvs)
  from PDict.prems(2) obtain m where n: "n = Suc m" by (cases n) (auto split: if_splits)
  show ?case
  proof (cases "kvs = []")
    case True
    then show ?thesis by (simp add: n skip_ws_id is_ws_def)
  next
    case False
    let ?members = "encode_members fr (Suc lvl) kvs @ nl_indent lvl @ CHR ''}'' # rest"
    from PDict.prems(1) have d: "distinct (map fst kvs)" by simp
    from PDict.prems(1) have ok: "json_ok (float_round_trip fr fp) v" if "(k, v) \<in> set kvs" for k v
      using that by (auto dest: json_ok_membersD)
    from False obtain k v ms where kvs: "kvs = (k, v) # ms" by (cases kvs) auto
    then obtain t' where i: "?members = CHR 0x22 # t'"
      by (cases ms) (auto simp: encode_str_def)
    then have sk: "skip_ws (nl_indent (Suc lvl) @ ?members) = CHR 0x22 # t'"
      by (simp add: skip_ws_nl_indent skip_ws_id is_ws_def)
    have "parse_members fp m ?members = Some (kvs, rest)"
    proof (rule parse_members_encode [OF False])
      show "parse_value fp n' (encode fr lvl' z @ rest') = Some (z, rest')"
        if "(q, z) \<in> set kvs" "length (encode fr lvl' z) \<le> n'" "value_end rest'"
        for q z n' lvl' rest'
      proof (rule PDict.IH [of "(q, z)"])
        show "(q, z) \<in> set kvs" by (rule that(1))
        show "z \<in> Basic_BNFs.snds (q, z)" by simp
        show "json_ok (float_round_trip fr fp) z" by (rule ok [OF that(1)])
      qed (rule that)+
      show "\<exists>c t. encode fr lvl' z = c # t \<and> \<not> is_ws c" if "(q, z) \<in> set kvs" for q z lvl'
        using encode_head [OF ok [OF that], of lvl'] by blast
      from PDict.prems(2) False n show "length (encode_members fr (Suc lvl) kvs) < m"
        by (simp add: nl_indent_def)
    qed
    with i have "parse_members fp m (CHR 0x22 # t') = Some (kvs, rest)" by simp
    with False sk show ?thesis by (simp add: n dict_of_pairs_distinct [OF d])
  qed
qed

lemma json_loads_dumps:
  assumes "json_ok (float_round_trip fr fp) v"
  shows "json_loads fp (json_dumps fr v) = Some v"
proof -
  from encode_head [OF assms, of 0] obtain c t where h: "encode fr 0 v = c # t" "\<not> is_ws c"
    by blast
  then have "skip_ws (encode fr 0 v) = encode fr 0 v" by (simp add: skip_ws_id)
  moreover have "parse_value fp (2 * length (encode fr 0 v) + 2) (encode fr 0 v @ []) = Some (v, [])"
    by (rule parse_value_encode [OF assms]) (simp_all add: value_end_def)
  ultimately show ?thesis by (simp add: json_loads_def json_dumps_def skip_ws_def)
qed

end
